theory Spec2Isabelle
  imports Complex_Main "HOL-Library.AList" "HOL-Library.Char_ord" "HOL-Library.List_Lexorder"
    "HOL-Library.Multiset"
begin

section \<open>Maintenance requests of the fc agent\<close>

text \<open>
  A shallow embedding of \<^verbatim>\<open>fc/maintenance/request.py\<close> and
  \<^verbatim>\<open>fc/maintenance/reqmanager.py\<close>. Python objects are records; a method that
  mutates its object takes the record and returns the new one; a method that may raise
  returns \<open>Inl\<close> of the exception \<^emph>\<open>together with\<close> the object as the exception
  leaves it, since Python keeps the fields written before a \<^verbatim>\<open>raise\<close>.
  The file system, the clock, the directory service and subprocesses are reached through
  a \<open>world\<close> (what happened so far) and an \<open>env\<close> (what the outside answers).
\<close>

subsection \<open>Exceptions\<close>

text \<open>
  The exceptions are those of class \<^verbatim>\<open>Exception\<close>, which is what every
  \<^verbatim>\<open>except Exception\<close> of the source catches.
\<close>

datatype exn =
    TypeError
  | KeyError
  | AssertionError
  | OSError
  | ParseError
  | CalledProcessError
  | DirectoryError
  | ActivityError string

subsection \<open>Time\<close>

text \<open>
  A \<^verbatim>\<open>datetime\<close>: the wall-clock reading in microseconds and the offset of its
  \<^verbatim>\<open>tzinfo\<close> from UTC in microseconds, \<open>None\<close> for a naive value. Python
  compares two aware values by their UTC instants, two naive values by their readings,
  and raises \<^verbatim>\<open>TypeError\<close> on an ordering comparison of a naive with an aware
  value; \<^verbatim>\<open>==\<close> on such a pair is just false.
\<close>

record datetime =
  wall :: int
  tzinfo :: "int option"

definition dt_lt :: "datetime \<Rightarrow> datetime \<Rightarrow> exn + bool" where
  "dt_lt a b =
     (case (tzinfo a, tzinfo b) of
        (None, None) \<Rightarrow> Inr (wall a < wall b)
      | (Some oa, Some ob) \<Rightarrow> Inr (wall a - oa < wall b - ob)
      | _ \<Rightarrow> Inl TypeError)"

definition dt_ge :: "datetime \<Rightarrow> datetime \<Rightarrow> exn + bool" where
  "dt_ge a b =
     (case (tzinfo a, tzinfo b) of
        (None, None) \<Rightarrow> Inr (wall a \<ge> wall b)
      | (Some oa, Some ob) \<Rightarrow> Inr (wall a - oa \<ge> wall b - ob)
      | _ \<Rightarrow> Inl TypeError)"

definition dt_eq :: "datetime \<Rightarrow> datetime \<Rightarrow> bool" where
  "dt_eq a b =
     (case (tzinfo a, tzinfo b) of
        (None, None) \<Rightarrow> wall a = wall b
      | (Some oa, Some ob) \<Rightarrow> wall a - oa = wall b - ob
      | _ \<Rightarrow> False)"

text \<open>\<^verbatim>\<open>a != b\<close> on two fields that hold a datetime or \<^verbatim>\<open>None\<close>.\<close>

definition opt_dt_ne :: "datetime option \<Rightarrow> datetime option \<Rightarrow> bool" where
  "opt_dt_ne x y =
     (case (x, y) of
        (None, None) \<Rightarrow> False
      | (Some a, Some b) \<Rightarrow> \<not> dt_eq a b
      | _ \<Rightarrow> True)"

definition aware :: "datetime option \<Rightarrow> bool" where
  "aware x = (case x of None \<Rightarrow> True | Some d \<Rightarrow> tzinfo d \<noteq> None)"

subsection \<open>States\<close>

text \<open>
  Modelled from the spec: the enumeration \<^verbatim>\<open>State\<close> of \<^verbatim>\<open>state.py\<close>, which is
  not among the sources; the spec lists its nine members.
\<close>

datatype State =
    Pending | Due | Running | Success | Tempfail | Postpone | Retrylimit | Error | Deleted

text \<open>
  Modelled from the spec: \<^verbatim>\<open>RebootType\<close> of \<^verbatim>\<open>fc.maintenance.activity\<close>, not
  among the sources; an activity's \<^verbatim>\<open>reboot_needed\<close> is none, warm or cold.
\<close>

datatype RebootType = WARM | COLD

subsection \<open>Activities and attempts\<close>

text \<open>
  The fields of an activity that the request and the manager read. \<open>payload\<close> stands
  for whatever else the concrete activity class holds.
\<close>

record activity =
  act_stdout :: "string option"
  act_stderr :: "string option"
  act_returncode :: "int option"
  act_duration :: "real option"
  reboot_needed :: "RebootType option"
  payload :: string

record attempt =
  started :: datetime
  finished :: "datetime option"
  att_duration :: "real option"
  att_stdout :: "string option"
  att_stderr :: "string option"
  att_returncode :: "int option"

subsection \<open>Requests\<close>

text \<open>
  \<open>reqid\<close> is the value of the property \<^verbatim>\<open>id\<close>: it is generated on first access
  and never changes afterwards, so the model holds the generated value. The back
  pointer \<^verbatim>\<open>_reqmanager\<close> and the logger are left out.
\<close>

text \<open>
  Modelled from the spec: \<^verbatim>\<open>Estimate\<close> of \<^verbatim>\<open>estimate.py\<close>, which is not among
  the sources; the field \<open>estimate\<close> holds what \<^verbatim>\<open>int(self.estimate)\<close> returns.
\<close>

record request =
  reqid :: string
  activity :: activity
  comment :: "string option"
  estimate :: int
  next_due :: "datetime option"
  last_scheduled_at :: "datetime option"
  added_at :: "datetime option"
  state :: State
  dir :: "string option"
  attempts :: "attempt list"

definition MAX_RETRIES :: nat where
  "MAX_RETRIES = 48"

subsection \<open>The outside world\<close>

text \<open>
  Every call that leaves the process is an event. The world keeps the events in order,
  the request files on disk, the working directory and how often the clock was read.
\<close>

datatype event =
    WriteRequest string
  | DumpActivity string
  | Chdir string
  | RunActivity string
  | Connect
  | ScheduleMaintenance "(string \<times> int \<times> string option) list"
  | EndMaintenance "(string \<times> string) list"
  | PostponeMaintenance "(string \<times> int) list"
  | MarkNodeServiceStatus string bool
  | Shell string
  | Exec string
  | Log string

record world =
  trace :: "event list"
  disk :: "string \<rightharpoonup> request"
  cwd :: string
  ticks :: nat

text \<open>
  The argument of \<^verbatim>\<open>update_due\<close>: \<^verbatim>\<open>None\<close>, a datetime or a string.
\<close>

datatype due_arg = DueNone | DueDatetime datetime | DueString string

text \<open>
  What the outside answers: the clock reading of the n-th call of
  \<^verbatim>\<open>utcnow()\<close>, whether an external call raises (given the events before it), what
  \<^verbatim>\<open>activity.run()\<close> does to the activity and whether it raises,
  \<^verbatim>\<open>iso8601.parse_date\<close>, the reply of \<^verbatim>\<open>schedule_maintenance\<close> (per id the
  \<^verbatim>\<open>"time"\<close> entry, \<open>None\<close> when the entry has no such key), and the host name.
\<close>

record env =
  clock :: "nat \<Rightarrow> int"
  fails :: "event list \<Rightarrow> event \<Rightarrow> bool"
  run_activity :: "event list \<Rightarrow> request \<Rightarrow> activity \<times> string option"
  parse_date :: "string \<Rightarrow> datetime option"
  schedule_reply :: "(string \<times> int \<times> string option) list \<Rightarrow> (string \<times> due_arg option) list"
  hostname :: string

definition utcnow :: "env \<Rightarrow> world \<Rightarrow> datetime \<times> world" where
  "utcnow E w = (\<lparr>wall = clock E (ticks w), tzinfo = Some 0\<rparr>, w\<lparr>ticks := Suc (ticks w)\<rparr>)"

text \<open>
  An external call is recorded whether or not it raises.
\<close>

definition ext :: "env \<Rightarrow> event \<Rightarrow> exn \<Rightarrow> world \<Rightarrow> (exn + unit) \<times> world" where
  "ext E e x w =
     ((if fails E (trace w) e then Inl x else Inr ()), w\<lparr>trace := trace w @ [e]\<rparr>)"

definition log :: "string \<Rightarrow> world \<Rightarrow> world" where
  "log key w = w\<lparr>trace := trace w @ [Log key]\<rparr>"

subsection \<open>\<^verbatim>\<open>Request.update_state\<close>\<close>

definition retry_check :: "request \<Rightarrow> request" where
  "retry_check r =
     (if length (attempts r) > MAX_RETRIES then r\<lparr>state := Retrylimit\<rparr> else r)"

definition update_state :: "env \<Rightarrow> request \<Rightarrow> world \<Rightarrow> (exn + State) \<times> request \<times> world" where
  "update_state E r w =
     (case (if state r = Pending \<or> state r = Postpone then next_due r else None) of
        None \<Rightarrow> (Inr (state (retry_check r)), retry_check r, w)
      | Some d \<Rightarrow>
          (case utcnow E w of (now, w1) \<Rightarrow>
             (case dt_ge now d of
                Inl x \<Rightarrow> (Inl x, r, w1)
              | Inr b \<Rightarrow>
                  (let r1 = (if b then r\<lparr>state := Due\<rparr> else r)
                   in (Inr (state (retry_check r1)), retry_check r1, w1)))))"

subsection \<open>\<^verbatim>\<open>Request.update_due\<close>\<close>

text \<open>
  \<^verbatim>\<open>not due\<close> holds for \<^verbatim>\<open>None\<close> and for the empty string. The new value is
  stored before the time zone is checked, so the \<^verbatim>\<open>TypeError\<close> comes with the
  request already changed.
\<close>

definition new_due :: "env \<Rightarrow> due_arg \<Rightarrow> exn + datetime option" where
  "new_due E due =
     (case due of
        DueNone \<Rightarrow> Inr None
      | DueDatetime d \<Rightarrow> Inr (Some d)
      | DueString s \<Rightarrow>
          (if s = [] then Inr None
           else (case parse_date E s of None \<Rightarrow> Inl ParseError | Some d \<Rightarrow> Inr (Some d))))"

definition lacks_tz :: "datetime option \<Rightarrow> bool" where
  "lacks_tz x = (case x of None \<Rightarrow> False | Some d \<Rightarrow> tzinfo d = None)"

definition update_due :: "env \<Rightarrow> due_arg \<Rightarrow> request \<Rightarrow> world \<Rightarrow> (exn + bool) \<times> request \<times> world" where
  "update_due E due r w =
     (let old = next_due r in
      case new_due E due of
        Inl x \<Rightarrow> (Inl x, r, w)
      | Inr nd \<Rightarrow>
          (let r1 = r\<lparr>next_due := nd\<rparr> in
           if lacks_tz (next_due r1) then (Inl TypeError, r1, w)
           else (case update_state E r1 w of
                   (Inl x, r2, w2) \<Rightarrow> (Inl x, r2, w2)
                 | (Inr s, r2, w2) \<Rightarrow> (Inr (opt_dt_ne (next_due r2) old), r2, w2))))"

subsection \<open>\<^verbatim>\<open>Request.__lt__\<close> and \<^verbatim>\<open>Request.__eq__\<close>\<close>

text \<open>
  A datetime is always true as a condition, so \<^verbatim>\<open>self.next_due and ...\<close> asks
  whether the field is set. Ids are compared as Python compares strings: character by
  character, a proper prefix first.
\<close>

definition lt :: "request \<Rightarrow> request \<Rightarrow> exn + bool" where
  "lt a b =
     (case (next_due a, next_due b) of
        (Some x, Some y) \<Rightarrow> dt_lt x y
      | (Some x, None) \<Rightarrow> Inr True
      | (None, Some y) \<Rightarrow> Inr False
      | (None, None) \<Rightarrow> Inr (reqid a < reqid b))"

text \<open>The right operand of \<^verbatim>\<open>==\<close> is a request or an object of another class.\<close>

datatype pyobj = Req request | Other

definition eq :: "request \<Rightarrow> pyobj \<Rightarrow> bool" where
  "eq a other = (case other of Other \<Rightarrow> False | Req b \<Rightarrow> reqid a = reqid b)"

subsection \<open>\<^verbatim>\<open>cd\<close> and \<^verbatim>\<open>Request.save\<close>\<close>

text \<open>
  \<^verbatim>\<open>with cd(newdir)\<close> around a body that works on some state \<open>s\<close>: the way
  back is taken in a \<^verbatim>\<open>finally\<close>, and an exception raised there replaces the
  body's.
\<close>

definition with_cd ::
  "env \<Rightarrow> string \<Rightarrow> ('s \<Rightarrow> world \<Rightarrow> (exn + unit) \<times> 's \<times> world) \<Rightarrow> 's \<Rightarrow> world
     \<Rightarrow> (exn + unit) \<times> 's \<times> world" where
  "with_cd E newdir body s w =
     (let oldcwd = cwd w in
      case ext E (Chdir newdir) OSError w of
        (Inl x, w1) \<Rightarrow> (Inl x, s, w1)
      | (Inr u, w1) \<Rightarrow>
          (case body s (w1\<lparr>cwd := newdir\<rparr>) of (res, s2, w2) \<Rightarrow>
             (case ext E (Chdir oldcwd) OSError w2 of
                (Inl x, w3) \<Rightarrow> (Inl x, s2, w3)
              | (Inr u, w3) \<Rightarrow> (res, s2, w3\<lparr>cwd := oldcwd\<rparr>))))"

text \<open>
  \<^verbatim>\<open>save\<close>: the assertion on \<^verbatim>\<open>self.dir\<close>, then the snapshot written to a
  temporary file and renamed over \<^verbatim>\<open>request.yaml\<close> (one event: it replaces the
  file or leaves it as it was), then \<^verbatim>\<open>activity.dump()\<close> inside the directory.
\<close>

definition dump_activity :: "env \<Rightarrow> string \<Rightarrow> unit \<Rightarrow> world \<Rightarrow> (exn + unit) \<times> unit \<times> world" where
  "dump_activity E d u w = (case ext E (DumpActivity d) OSError w of (res, w1) \<Rightarrow> (res, (), w1))"

definition save :: "env \<Rightarrow> request \<Rightarrow> world \<Rightarrow> (exn + unit) \<times> world" where
  "save E r w =
     (case dir r of
        None \<Rightarrow> (Inl AssertionError, w)
      | Some d \<Rightarrow>
          (if d = [] then (Inl AssertionError, w)
           else (case ext E (WriteRequest d) OSError w of
                   (Inl x, w1) \<Rightarrow> (Inl x, w1)
                 | (Inr u, w1) \<Rightarrow>
                     (case with_cd E d (dump_activity E d) () (w1\<lparr>disk := (disk w1)(d \<mapsto> r)\<rparr>) of
                        (res, u2, w2) \<Rightarrow> (res, w2)))))"

subsection \<open>\<^verbatim>\<open>Attempt\<close>\<close>

definition Attempt :: "env \<Rightarrow> world \<Rightarrow> attempt \<times> world" where
  "Attempt E w =
     (case utcnow E w of (now, w1) \<Rightarrow>
        (\<lparr>started = now, finished = None, att_duration = None, att_stdout = None,
          att_stderr = None, att_returncode = None\<rparr>, w1))"

text \<open>
  \<^verbatim>\<open>(self.finished - self.started).total_seconds()\<close>: the difference of two
  datetimes in seconds; the rounding to a float is left out.
\<close>

definition total_seconds :: "datetime \<Rightarrow> datetime \<Rightarrow> exn + real" where
  "total_seconds fin st =
     (case (tzinfo fin, tzinfo st) of
        (None, None) \<Rightarrow> Inr (real_of_int (wall fin - wall st) / 1000000)
      | (Some a, Some b) \<Rightarrow> Inr (real_of_int ((wall fin - a) - (wall st - b)) / 1000000)
      | _ \<Rightarrow> Inl TypeError)"

definition truthy :: "real option \<Rightarrow> bool" where
  "truthy x = (case x of None \<Rightarrow> False | Some v \<Rightarrow> v \<noteq> 0)"

definition record_attempt :: "env \<Rightarrow> activity \<Rightarrow> attempt \<Rightarrow> world \<Rightarrow> (exn + unit) \<times> attempt \<times> world" where
  "record_attempt E act a w =
     (case utcnow E w of (now, w1) \<Rightarrow>
        (let a1 = a\<lparr>finished := Some now, att_stdout := act_stdout act,
                    att_stderr := act_stderr act, att_returncode := act_returncode act\<rparr>
         in if truthy (act_duration act) then (Inr (), a1\<lparr>att_duration := act_duration act\<rparr>, w1)
            else if \<not> truthy (att_duration a1) then
              (case total_seconds now (started a1) of
                 Inl x \<Rightarrow> (Inl x, a1, w1)
               | Inr secs \<Rightarrow> (Inr (), a1\<lparr>att_duration := Some secs\<rparr>, w1))
            else (Inr (), a1, w1)))"

subsection \<open>\<^verbatim>\<open>Request.execute\<close>\<close>

text \<open>\<^verbatim>\<open>str(e)\<close> of a caught exception.\<close>

fun exn_str :: "exn \<Rightarrow> string" where
  "exn_str (ActivityError msg) = msg"
| "exn_str TypeError = ''TypeError''"
| "exn_str KeyError = ''KeyError''"
| "exn_str AssertionError = ''AssertionError''"
| "exn_str OSError = ''OSError''"
| "exn_str ParseError = ''ParseError''"
| "exn_str CalledProcessError = ''CalledProcessError''"
| "exn_str DirectoryError = ''DirectoryError''"

text \<open>
  The inner \<^verbatim>\<open>try\<close>: \<^verbatim>\<open>activity.run()\<close> and \<^verbatim>\<open>attempt.record\<close>, with
  every exception turned into return code 70 on the attempt. The state is the request
  and the attempt in flight.
\<close>

definition run_and_record :: "env \<Rightarrow> request \<times> attempt \<Rightarrow> world \<Rightarrow> (exn + unit) \<times> (request \<times> attempt) \<times> world" where
  "run_and_record E ra w =
     (case ra of (r, a) \<Rightarrow>
        (let w1 = w\<lparr>trace := trace w @ [RunActivity (reqid r)]\<rparr> in
         case run_activity E (trace w) r of
           (act, Some msg) \<Rightarrow>
             (Inr (), (r\<lparr>activity := act\<rparr>, a\<lparr>att_returncode := Some 70, att_stderr := Some msg\<rparr>), w1)
         | (act, None) \<Rightarrow>
             (case record_attempt E act a w1 of
                (Inr u, a1, w2) \<Rightarrow> (Inr (), (r\<lparr>activity := act\<rparr>, a1), w2)
              | (Inl x, a1, w2) \<Rightarrow>
                  (Inr (), (r\<lparr>activity := act\<rparr>,
                            a1\<lparr>att_returncode := Some 70, att_stderr := Some (exn_str x)\<rparr>), w2))))"

text \<open>
  The outer \<^verbatim>\<open>try\<close> block. \<open>ev\<close> is \<^verbatim>\<open>evaluate_state\<close> of
  \<^verbatim>\<open>state.py\<close>, which is not among the sources: the mapping from the activity's
  return code to a state is a parameter.
\<close>

definition execute_try ::
  "env \<Rightarrow> (int option \<Rightarrow> State) \<Rightarrow> request \<times> attempt \<Rightarrow> world
     \<Rightarrow> (exn + unit) \<times> (request \<times> attempt) \<times> world" where
  "execute_try E ev ra w =
     (case ra of (r, a) \<Rightarrow>
        (let r1 = r\<lparr>state := Running\<rparr> in
         case save E r1 w of
           (Inl x, w1) \<Rightarrow> (Inl x, (r1, a), w1)
         | (Inr u, w1) \<Rightarrow>
             (case dir r1 of
                None \<Rightarrow> (Inl TypeError, (r1, a), w1)
              | Some d \<Rightarrow>
                  (case with_cd E d (run_and_record E) (r1, a) w1 of
                     (Inl x, ra2, w2) \<Rightarrow> (Inl x, ra2, w2)
                   | (Inr u, (r2, a2), w2) \<Rightarrow>
                       (Inr (),
                        (r2\<lparr>attempts := attempts r2 @ [a2],
                            state := ev (act_returncode (activity r2))\<rparr>, a2),
                        w2)))))"

definition execute ::
  "env \<Rightarrow> (int option \<Rightarrow> State) \<Rightarrow> request \<Rightarrow> world \<Rightarrow> (exn + unit) \<times> request \<times> world" where
  "execute E ev r w =
     (case Attempt E w of (attempt, w0) \<Rightarrow>
        (case execute_try E ev (r, attempt) w0 of (res, (r1, a1), w1) \<Rightarrow>
           (let r2 = (case res of Inl x \<Rightarrow> r1\<lparr>state := Error\<rparr> | Inr u \<Rightarrow> r1) in
            case save E r2 w1 of (res2, w2) \<Rightarrow> (Inr (), r2, w2))))"

subsection \<open>\<^verbatim>\<open>ReqManager\<close>\<close>

text \<open>
  \<open>requests\<close> is the dict of requests in insertion order; \<open>AList.update\<close> replaces
  the value of a key that is there and appends a new key, as a Python dict does. The
  request objects are shared between the dict and whoever holds them, so every method
  that changes a request writes it back under its key. \<open>lockfile\<close> and
  \<open>directory\<close> say whether the lock is held and the directory connection exists;
  \<open>config\<close> holds the sections of the configuration file.
\<close>

record manager =
  requests :: "(string \<times> request) list"
  requestsdir :: string
  lockfile :: bool
  directory :: bool
  config :: "(string \<times> (string \<times> string) list) list"

text \<open>The decorators \<^verbatim>\<open>require_lock\<close> and \<^verbatim>\<open>require_directory\<close>.\<close>

definition require_lock :: "manager \<Rightarrow> exn + unit" where
  "require_lock m = (if lockfile m then Inr () else Inl AssertionError)"

definition require_directory :: "env \<Rightarrow> manager \<Rightarrow> world \<Rightarrow> (exn + unit) \<times> manager \<times> world" where
  "require_directory E m w =
     (if directory m then (Inr (), m, w)
      else (case ext E Connect DirectoryError w of
              (Inl x, w1) \<Rightarrow> (Inl x, m, w1)
            | (Inr u, w1) \<Rightarrow> (Inr (), m\<lparr>directory := True\<rparr>, w1)))"

definition set_request :: "request \<Rightarrow> manager \<Rightarrow> manager" where
  "set_request r m = m\<lparr>requests := AList.update (reqid r) r (requests m)\<rparr>"

definition put_request :: "string \<Rightarrow> request \<Rightarrow> manager \<Rightarrow> manager" where
  "put_request k r m = m\<lparr>requests := AList.update k r (requests m)\<rparr>"

subsection \<open>\<^verbatim>\<open>ReqManager.add\<close> and \<^verbatim>\<open>find_by_comment\<close>\<close>

definition find_by_comment :: "manager \<Rightarrow> string \<Rightarrow> request option" where
  "find_by_comment m c = find (\<lambda>r. comment r = Some c) (map snd (requests m))"

text \<open>\<^verbatim>\<open>ReqManager.dir\<close>: the path of the request's directory.\<close>

definition mgr_dir :: "manager \<Rightarrow> request \<Rightarrow> string" where
  "mgr_dir m r = requestsdir m @ ''/'' @ reqid r"

definition do_add :: "env \<Rightarrow> request \<Rightarrow> manager \<Rightarrow> world \<Rightarrow> (exn + request option) \<times> manager \<times> world" where
  "do_add E r m w =
     (case utcnow E w of (now, w1) \<Rightarrow>
        (let r1 = r\<lparr>dir := Some (mgr_dir m r), added_at := Some now\<rparr>;
             m1 = set_request r1 m
         in case save E r1 w1 of
              (Inl x, w2) \<Rightarrow> (Inl x, m1, w2)
            | (Inr u, w2) \<Rightarrow> (Inr (Some r1), m1, w2)))"

definition add ::
  "env \<Rightarrow> request option \<Rightarrow> bool \<Rightarrow> manager \<Rightarrow> world \<Rightarrow> (exn + request option) \<times> manager \<times> world" where
  "add E request skip_same_comment m w =
     (case request of
        None \<Rightarrow> (Inr None, m, w)
      | Some r \<Rightarrow>
          (case (if skip_same_comment then comment r else None) of
             None \<Rightarrow> do_add E r m w
           | Some c \<Rightarrow>
               (if c = [] then do_add E r m w
                else (case find_by_comment m c of
                        Some duplicate \<Rightarrow> (Inr None, m, w)
                      | None \<Rightarrow> do_add E r m w))))"

subsection \<open>\<^verbatim>\<open>ReqManager.schedule\<close>\<close>

text \<open>
  One round of the loop over the reply. \<^verbatim>\<open>self.requests[key]\<close> and
  \<^verbatim>\<open>val["time"]\<close> raise \<^verbatim>\<open>KeyError\<close>; the \<^verbatim>\<open>except KeyError\<close> around the
  round puts the key into \<open>disappeared\<close>; any other exception ends
  \<^verbatim>\<open>schedule()\<close>.
\<close>

definition schedule_one ::
  "env \<Rightarrow> string \<Rightarrow> due_arg option \<Rightarrow> manager \<Rightarrow> world \<Rightarrow> (exn + unit) \<times> manager \<times> world" where
  "schedule_one E key val m w =
     (case map_of (requests m) key of
        None \<Rightarrow> (Inl KeyError, m, w)
      | Some req \<Rightarrow>
          (case val of
             None \<Rightarrow> (Inl KeyError, m, w)
           | Some due \<Rightarrow>
               (case update_due E due req w of
                  (Inl x, req1, w1) \<Rightarrow> (Inl x, put_request key req1 m, w1)
                | (Inr changed, req1, w1) \<Rightarrow>
                    (if changed then
                       (case utcnow E w1 of (now, w2) \<Rightarrow>
                          (let req2 = req1\<lparr>last_scheduled_at := Some now\<rparr> in
                           case save E req2 w2 of
                             (res, w3) \<Rightarrow> (res, put_request key req2 m, w3)))
                     else (Inr (), put_request key req1 m, w1)))))"

fun schedule_loop ::
  "env \<Rightarrow> (string \<times> due_arg option) list \<Rightarrow> string list \<Rightarrow> manager \<Rightarrow> world
     \<Rightarrow> (exn + string list) \<times> manager \<times> world" where
  "schedule_loop E [] disappeared m w = (Inr disappeared, m, w)"
| "schedule_loop E ((key, val) # rest) disappeared m w =
     (case schedule_one E key val m w of
        (Inr u, m1, w1) \<Rightarrow> schedule_loop E rest disappeared m1 w1
      | (Inl x, m1, w1) \<Rightarrow>
          (if x = KeyError then schedule_loop E rest (List.insert key disappeared) m1 w1
           else (Inl x, m1, w1)))"

definition schedule :: "env \<Rightarrow> manager \<Rightarrow> world \<Rightarrow> (exn + unit) \<times> manager \<times> world" where
  "schedule E m w =
     (case require_lock m of
        Inl x \<Rightarrow> (Inl x, m, w)
      | Inr u \<Rightarrow>
          (case require_directory E m w of
             (Inl x, m1, w1) \<Rightarrow> (Inl x, m1, w1)
           | (Inr u, m1, w1) \<Rightarrow>
               (let schedule_maintenance = map (\<lambda>(reqid, req). (reqid, estimate req, comment req)) (requests m1) in
                case ext E (ScheduleMaintenance schedule_maintenance) DirectoryError w1 of
                  (Inl x, w2) \<Rightarrow> (Inl x, m1, w2)
                | (Inr u, w2) \<Rightarrow>
                    (case schedule_loop E (schedule_reply E schedule_maintenance) [] m1 w2 of
                       (Inl x, m3, w3) \<Rightarrow> (Inl x, m3, w3)
                     | (Inr disappeared, m3, w3) \<Rightarrow>
                         (if disappeared \<noteq> [] then
                            (case ext E (EndMaintenance (map (\<lambda>key. (key, ''deleted'')) disappeared))
                                    DirectoryError w3 of
                               (res, w4) \<Rightarrow> (res, m3, w4))
                          else (Inr (), m3, w3))))))"

subsection \<open>\<^verbatim>\<open>ReqManager.runnable\<close>\<close>

text \<open>
  \<^verbatim>\<open>sorted()\<close> is stable and compares with \<^verbatim>\<open><\<close> only: each element goes
  behind the elements it is not less than. An exception of a comparison ends the sort.
\<close>

fun insort_lt :: "string \<times> request \<Rightarrow> (string \<times> request) list \<Rightarrow> exn + (string \<times> request) list" where
  "insort_lt x [] = Inr [x]"
| "insort_lt x (y # ys) =
     (case lt (snd x) (snd y) of
        Inl e \<Rightarrow> Inl e
      | Inr True \<Rightarrow> Inr (x # y # ys)
      | Inr False \<Rightarrow> (case insort_lt x ys of Inl e \<Rightarrow> Inl e | Inr zs \<Rightarrow> Inr (y # zs)))"

fun sorted_lt :: "(string \<times> request) list \<Rightarrow> (string \<times> request) list \<Rightarrow> exn + (string \<times> request) list" where
  "sorted_lt acc [] = Inr acc"
| "sorted_lt acc (x # xs) =
     (case insort_lt x acc of Inl e \<Rightarrow> Inl e | Inr acc1 \<Rightarrow> sorted_lt acc1 xs)"

text \<open>
  The generator run to its end, as \<^verbatim>\<open>list(self.runnable())\<close> does: \<open>todo\<close> is
  what is left of \<^verbatim>\<open>self.requests\<close>, \<open>yielded\<close> the requests yielded so far and
  \<open>collected\<close> the local list \<^verbatim>\<open>requests\<close>.
\<close>

fun runnable_loop ::
  "env \<Rightarrow> (string \<times> request) list \<Rightarrow> (string \<times> request) list \<Rightarrow> (string \<times> request) list
     \<Rightarrow> manager \<Rightarrow> world \<Rightarrow> (exn + (string \<times> request) list) \<times> manager \<times> world" where
  "runnable_loop E [] yielded collected m w =
     (case sorted_lt [] collected of
        Inl x \<Rightarrow> (Inl x, m, w)
      | Inr s \<Rightarrow> (Inr (yielded @ s), m, w))"
| "runnable_loop E ((key, request) # todo) yielded collected m w =
     (case update_state E request w of
        (Inl x, r1, w1) \<Rightarrow> (Inl x, put_request key r1 m, w1)
      | (Inr new_state, r1, w1) \<Rightarrow>
          (if new_state = Running then
             runnable_loop E todo (yielded @ [(key, r1)]) collected (put_request key r1 m) w1
           else if new_state = Due \<or> new_state = Tempfail then
             runnable_loop E todo yielded (collected @ [(key, r1)]) (put_request key r1 m) w1
           else runnable_loop E todo yielded collected (put_request key r1 m) w1))"

definition runnable :: "env \<Rightarrow> manager \<Rightarrow> world \<Rightarrow> (exn + (string \<times> request) list) \<times> manager \<times> world" where
  "runnable E m w = runnable_loop E (requests m) [] [] m w"

subsection \<open>Maintenance mode and reboot\<close>

text \<open>
  \<^verbatim>\<open>command.strip()\<close> is empty exactly when the command consists of white space.
  A character of the model is a code point below 256; those that \<^verbatim>\<open>str.strip()\<close>
  removes are U+0009 to U+000D, U+001C to U+001F, the space, U+0085 (next line) and
  U+00A0 (no-break space).
\<close>

definition is_space :: "char \<Rightarrow> bool" where
  "is_space c = (c \<in> set [CHR 0x09, CHR 0x0A, CHR 0x0B, CHR 0x0C, CHR 0x0D,
                            CHR 0x1C, CHR 0x1D, CHR 0x1E, CHR 0x1F, CHR '' '',
                            CHR 0x85, CHR 0xA0])"

definition blank :: "string \<Rightarrow> bool" where
  "blank command = list_all is_space command"

text \<open>
  The commands of one section of the configuration, run by the shell with
  \<^verbatim>\<open>check=True\<close>.
\<close>

fun run_commands :: "env \<Rightarrow> (string \<times> string) list \<Rightarrow> world \<Rightarrow> (exn + unit) \<times> world" where
  "run_commands E [] w = (Inr (), w)"
| "run_commands E ((name, command) # rest) w =
     (if blank command then run_commands E rest w
      else (case ext E (Shell command) CalledProcessError w of
              (Inl x, w1) \<Rightarrow> (Inl x, w1)
            | (Inr u, w1) \<Rightarrow> run_commands E rest w1))"

text \<open>
  Of the log calls, the model records those that mark the maintenance hooks and the
  reboot decision.
\<close>

definition enter_maintenance :: "env \<Rightarrow> manager \<Rightarrow> world \<Rightarrow> (exn + unit) \<times> world" where
  "enter_maintenance E m w =
     (case ext E (MarkNodeServiceStatus (hostname E) False) DirectoryError (log ''enter-maintenance'' w) of
        (Inl x, w1) \<Rightarrow> (Inl x, w1)
      | (Inr u, w1) \<Rightarrow>
          (case map_of (config m) ''maintenance-enter'' of
             None \<Rightarrow> (Inl KeyError, w1)
           | Some commands \<Rightarrow> run_commands E commands w1))"

definition leave_maintenance :: "env \<Rightarrow> manager \<Rightarrow> world \<Rightarrow> (exn + unit) \<times> world" where
  "leave_maintenance E m w =
     (case map_of (config m) ''maintenance-leave'' of
        None \<Rightarrow> (Inl KeyError, log ''leave-maintenance'' w)
      | Some commands \<Rightarrow>
          (case run_commands E commands (log ''leave-maintenance'' w) of
             (Inl x, w1) \<Rightarrow> (Inl x, w1)
           | (Inr u, w1) \<Rightarrow> ext E (MarkNodeServiceStatus (hostname E) True) DirectoryError w1))"

text \<open>
  \<^verbatim>\<open>requested_reboots\<close> is a set of \<^verbatim>\<open>reboot_needed\<close> values, \<^verbatim>\<open>None\<close>
  among them when a successful activity needs no reboot.
\<close>

definition reboot :: "env \<Rightarrow> RebootType option list \<Rightarrow> world \<Rightarrow> (exn + bool) \<times> world" where
  "reboot E requested_reboots w =
     (if Some COLD \<in> set requested_reboots then
        (case ext E (Exec ''poweroff'') CalledProcessError (log ''maintenance-poweroff'' w) of
           (Inl x, w1) \<Rightarrow> (Inl x, w1)
         | (Inr u, w1) \<Rightarrow> (Inr True, w1))
      else if Some WARM \<in> set requested_reboots then
        (case ext E (Exec ''reboot'') CalledProcessError (log ''maintenance-reboot'' w) of
           (Inl x, w1) \<Rightarrow> (Inl x, w1)
         | (Inr u, w1) \<Rightarrow> (Inr True, w1))
      else (Inr False, w))"

subsection \<open>\<^verbatim>\<open>ReqManager.execute\<close>\<close>

text \<open>
  The loop over \<^verbatim>\<open>runnable_requests\<close>. The list holds the request objects of the
  dict, so each round works on the request as the dict has it now.
\<close>

fun execute_loop ::
  "env \<Rightarrow> (int option \<Rightarrow> State) \<Rightarrow> (string \<times> request) list \<Rightarrow> RebootType option list
     \<Rightarrow> manager \<Rightarrow> world \<Rightarrow> RebootType option list \<times> manager \<times> world" where
  "execute_loop E ev [] requested_reboots m w = (requested_reboots, m, w)"
| "execute_loop E ev ((key, r0) # rest) requested_reboots m w =
     (let req = (case map_of (requests m) key of None \<Rightarrow> r0 | Some r \<Rightarrow> r) in
      case execute E ev req w of
        (res, req1, w1) \<Rightarrow>
          execute_loop E ev rest
            (if state req1 = Success
             then List.insert (reboot_needed (activity req1)) requested_reboots
             else requested_reboots)
            (put_request key req1 m) w1)"

definition run_batch ::
  "env \<Rightarrow> (int option \<Rightarrow> State) \<Rightarrow> (string \<times> request) list \<Rightarrow> manager \<Rightarrow> world
     \<Rightarrow> (exn + unit) \<times> manager \<times> world" where
  "run_batch E ev runnable_requests m w =
     (if runnable_requests = [] then
        (case leave_maintenance E m w of (res, w1) \<Rightarrow> (res, m, w1))
      else
        (case enter_maintenance E m w of
           (Inl x, w1) \<Rightarrow> (Inl x, m, w1)
         | (Inr u, w1) \<Rightarrow>
             (case execute_loop E ev runnable_requests [] m w1 of
                (requested_reboots, m2, w2) \<Rightarrow>
                  (case reboot E requested_reboots w2 of
                     (Inl x, w3) \<Rightarrow> (Inl x, m2, w3)
                   | (Inr rebooted, w3) \<Rightarrow>
                       (if \<not> rebooted then
                          (case leave_maintenance E m2 (log ''no-reboot-requested'' w3) of
                             (res, w4) \<Rightarrow> (res, m2, w4))
                        else (Inr (), m2, w3))))))"

definition mgr_execute ::
  "env \<Rightarrow> (int option \<Rightarrow> State) \<Rightarrow> bool \<Rightarrow> manager \<Rightarrow> world \<Rightarrow> (exn + unit) \<times> manager \<times> world" where
  "mgr_execute E ev run_all_now m w =
     (case require_directory E m w of
        (Inl x, m1, w1) \<Rightarrow> (Inl x, m1, w1)
      | (Inr u, m1, w1) \<Rightarrow>
          (case require_lock m1 of
             Inl x \<Rightarrow> (Inl x, m1, w1)
           | Inr u \<Rightarrow>
               (if run_all_now then run_batch E ev (requests m1) m1 w1
                else (case runnable E m1 w1 of
                        (Inl x, m2, w2) \<Rightarrow> (Inl x, m2, w2)
                      | (Inr runnable_requests, m2, w2) \<Rightarrow> run_batch E ev runnable_requests m2 w2))))"

subsection \<open>\<^verbatim>\<open>ReqManager.postpone\<close>\<close>

fun postpone_loop ::
  "env \<Rightarrow> (string \<times> request) list \<Rightarrow> manager \<Rightarrow> world \<Rightarrow> (exn + unit) \<times> manager \<times> world" where
  "postpone_loop E [] m w = (Inr (), m, w)"
| "postpone_loop E ((key, req) # rest) m w =
     (case update_due E DueNone req w of
        (Inl x, req1, w1) \<Rightarrow> (Inl x, put_request key req1 m, w1)
      | (Inr changed, req1, w1) \<Rightarrow>
          (case save E req1 w1 of
             (Inl x, w2) \<Rightarrow> (Inl x, put_request key req1 m, w2)
           | (Inr u, w2) \<Rightarrow> postpone_loop E rest (put_request key req1 m) w2))"

definition postpone :: "env \<Rightarrow> manager \<Rightarrow> world \<Rightarrow> (exn + unit) \<times> manager \<times> world" where
  "postpone E m w =
     (case require_lock m of
        Inl x \<Rightarrow> (Inl x, m, w)
      | Inr u \<Rightarrow>
          (case require_directory E m w of
             (Inl x, m1, w1) \<Rightarrow> (Inl x, m1, w1)
           | (Inr u, m1, w1) \<Rightarrow>
               (let postponed = filter (\<lambda>(key, r). state r = Postpone) (requests m1) in
                if postponed = [] then (Inr (), m1, w1)
                else
                  (let postpone_maintenance = map (\<lambda>(key, req). (reqid req, 2 * estimate req)) postponed in
                   case ext E (PostponeMaintenance postpone_maintenance) DirectoryError w1 of
                     (Inl x, w2) \<Rightarrow> (Inl x, m1, w2)
                   | (Inr u, w2) \<Rightarrow> postpone_loop E postponed m1 w2))))"

subsection \<open>Notions used in the statements\<close>

text \<open>The instant of a datetime on the time line its comparison uses.\<close>

definition instant :: "datetime \<Rightarrow> int" where
  "instant d = wall d - (case tzinfo d of None \<Rightarrow> 0 | Some off \<Rightarrow> off)"

text \<open>No external call raises.\<close>

definition no_failures :: "env \<Rightarrow> bool" where
  "no_failures E \<longleftrightarrow> (\<forall>t e. \<not> fails E t e)"

text \<open>The request has its directory, as every request added or loaded has.\<close>

definition has_dir :: "request \<Rightarrow> bool" where
  "has_dir r = (case dir r of None \<Rightarrow> False | Some d \<Rightarrow> d \<noteq> [])"

text \<open>
  The events that the methods of a request cause: writing its file, dumping and running
  its activity, changing the directory.
\<close>

fun request_event :: "event \<Rightarrow> bool" where
  "request_event (WriteRequest d) = True"
| "request_event (DumpActivity d) = True"
| "request_event (Chdir d) = True"
| "request_event (RunActivity i) = True"
| "request_event e = False"

text \<open>The world \<open>w'\<close> continues \<open>w\<close> by events that all satisfy \<open>P\<close>.\<close>

definition grows :: "(event \<Rightarrow> bool) \<Rightarrow> world \<Rightarrow> world \<Rightarrow> bool" where
  "grows P w w' \<longleftrightarrow> (\<exists>es. trace w' = trace w @ es \<and> list_all P es)"

text \<open>
  An entry of the reply of \<^verbatim>\<open>schedule_maintenance\<close> whose round raises
  \<^verbatim>\<open>KeyError\<close>: its id is not in the collection, or it has no \<^verbatim>\<open>"time"\<close>.
\<close>

definition missing :: "manager \<Rightarrow> string \<times> due_arg option \<Rightarrow> bool" where
  "missing m kv = (map_of (requests m) (fst kv) = None \<or> snd kv = None)"

text \<open>The arguments of the calls of \<^verbatim>\<open>end_maintenance\<close> among some events.\<close>

fun end_maintenance_calls :: "event list \<Rightarrow> (string \<times> string) list list" where
  "end_maintenance_calls [] = []"
| "end_maintenance_calls (EndMaintenance ps # es) = ps # end_maintenance_calls es"
| "end_maintenance_calls (e # es) = end_maintenance_calls es"

text \<open>
  What \<^verbatim>\<open>add\<close> and \<^verbatim>\<open>scan\<close> establish: every request is stored under its own id
  and has its directory below the directory of requests.
\<close>

definition wf_manager :: "manager \<Rightarrow> bool" where
  "wf_manager m \<longleftrightarrow>
     distinct (map fst (requests m))
     \<and> (\<forall>(k, r) \<in> set (requests m). reqid r = k \<and> dir r = Some (mgr_dir m r))"

text \<open>The arguments of the calls of \<^verbatim>\<open>postpone_maintenance\<close> among some events.\<close>

fun postpone_calls :: "event list \<Rightarrow> (string \<times> int) list list" where
  "postpone_calls [] = []"
| "postpone_calls (PostponeMaintenance ps # es) = ps # postpone_calls es"
| "postpone_calls (e # es) = postpone_calls es"

text \<open>The request after \<^verbatim>\<open>update_due(None)\<close>.\<close>

definition cleared :: "request \<Rightarrow> request" where
  "cleared r = retry_check (r\<lparr>next_due := None\<rparr>)"

text \<open>
  \<^verbatim>\<open>update_state()\<close> called on the requests one after the other: the requests as
  they are afterwards, and the world.
\<close>

fun refresh :: "env \<Rightarrow> (string \<times> request) list \<Rightarrow> world \<Rightarrow> (string \<times> request) list \<times> world" where
  "refresh E [] w = ([], w)"
| "refresh E ((key, r) # rest) w =
     (case update_state E r w of (res, r1, w1) \<Rightarrow>
        (case refresh E rest w1 of (rest1, w2) \<Rightarrow> ((key, r1) # rest1, w2)))"

text \<open>In a sorted list no element is \<^verbatim>\<open><\<close> an element before it.\<close>

definition not_before :: "string \<times> request \<Rightarrow> string \<times> request \<Rightarrow> bool" where
  "not_before a b \<longleftrightarrow> lt (snd b) (snd a) = Inr False"

text \<open>
  The order in words: by due time, a request with a due time before one without, two
  requests without a due time by id.
\<close>

definition due_order :: "request \<Rightarrow> request \<Rightarrow> bool" where
  "due_order a b =
     (case (next_due a, next_due b) of
        (Some x, Some y) \<Rightarrow> instant x \<le> instant y
      | (Some x, None) \<Rightarrow> True
      | (None, Some y) \<Rightarrow> False
      | (None, None) \<Rightarrow> reqid a \<le> reqid b)"

text \<open>The two kinds of requests that \<^verbatim>\<open>runnable()\<close> yields.\<close>

definition is_running :: "string \<times> request \<Rightarrow> bool" where
  "is_running kr \<longleftrightarrow> state (snd kr) = Running"

definition is_dueish :: "string \<times> request \<Rightarrow> bool" where
  "is_dueish kr \<longleftrightarrow> state (snd kr) = Due \<or> state (snd kr) = Tempfail"

text \<open>Every due time in the collection carries a time zone.\<close>

definition all_aware :: "(string \<times> request) list \<Rightarrow> bool" where
  "all_aware rs = list_all (\<lambda>(k, r). aware (next_due r)) rs"

text \<open>
  An event that is neither a reboot or power-off command nor the log line that opens
  \<^verbatim>\<open>leave_maintenance\<close>.
\<close>

fun quiet :: "event \<Rightarrow> bool" where
  "quiet (Exec c) = False"
| "quiet (Log key) = (key \<noteq> ''leave-maintenance'')"
| "quiet e = True"

subsection \<open>Concrete values\<close>

definition act0 :: activity where
  "act0 = \<lparr>act_stdout = None, act_stderr = None, act_returncode = None,
            act_duration = None, reboot_needed = None, payload = []\<rparr>"

definition req0 :: request where
  "req0 = \<lparr>reqid = ''a'', activity = act0,
     comment = None, estimate = 1800, next_due = None, last_scheduled_at = None,
     added_at = None, state = Pending, dir = Some ''/spool/requests/a'', attempts = []\<rparr>"

definition att0 :: attempt where
  "att0 = \<lparr>started = \<lparr>wall = 0, tzinfo = Some 0\<rparr>, finished = None, att_duration = None,
     att_stdout = None, att_stderr = None, att_returncode = Some 75\<rparr>"

text \<open>
  An outside where nothing fails, the clock advances by one second per reading and
  every activity exits with 0.
\<close>

definition env0 :: env where
  "env0 = \<lparr>clock = (\<lambda>n. 1000000 * int n), fails = (\<lambda>_ _. False),
     run_activity = (\<lambda>_ r. (activity r\<lparr>act_returncode := Some 0\<rparr>, None)),
     parse_date = (\<lambda>_. None), schedule_reply = (\<lambda>_. []), hostname = ''node''\<rparr>"

text \<open>The same outside with activities that raise.\<close>

definition env_raise :: env where
  "env_raise = env0\<lparr>run_activity := (\<lambda>_ r. (activity r, Some ''boom''))\<rparr>"

definition world0 :: world where
  "world0 = \<lparr>trace = [], disk = Map.empty, cwd = ''/'', ticks = 0\<rparr>"

text \<open>
  Modelled from the spec: \<^verbatim>\<open>evaluate_state\<close> of \<^verbatim>\<open>state.py\<close>, which is not
  among the sources. The results hold for every mapping; this one, of the shape the
  spec describes (zero is success, two reserved codes are tempfail and postpone,
  everything else is an error), is used where a concrete mapping is needed.
\<close>

definition ev0 :: "int option \<Rightarrow> State" where
  "ev0 rc = (if rc = Some 0 then Success else if rc = Some 75 then Tempfail
             else if rc = Some 69 then Postpone else Error)"

text \<open>A naive and an aware due time.\<close>

definition naive1 :: datetime where
  "naive1 = \<lparr>wall = 5000000, tzinfo = None\<rparr>"

definition aware1 :: datetime where
  "aware1 = \<lparr>wall = 5000000, tzinfo = Some 0\<rparr>"

definition aware2 :: datetime where
  "aware2 = \<lparr>wall = 3609000000, tzinfo = Some 3600000000\<rparr>"

text \<open>A manager that holds the lock and the directory connection, with one hook each way.\<close>

definition mgr0 :: manager where
  "mgr0 = \<lparr>requests = [], requestsdir = ''/spool/requests'', lockfile = True, directory = True,
     config = [(''maintenance-enter'', [(''demo'', ''systemctl stop demo'')]),
               (''maintenance-leave'', [(''demo'', ''systemctl start demo''), (''none'', '' '')])]\<rparr>"

text \<open>Two requests \<open>a\<close> and \<open>b\<close> in the collection.\<close>

definition req_b :: request where
  "req_b = req0\<lparr>reqid := ''b'', dir := Some ''/spool/requests/b''\<rparr>"

definition mgr_ab :: manager where
  "mgr_ab = mgr0\<lparr>requests := [(''a'', req0), (''b'', req_b)]\<rparr>"

text \<open>
  A directory whose reply has a due time for \<open>a\<close> only, and one whose reply also
  names a request \<open>zz\<close>.
\<close>

definition env_reply1 :: env where
  "env_reply1 = env0\<lparr>schedule_reply := (\<lambda>_. [(''a'', Some (DueDatetime aware1))])\<rparr>"

definition env_reply2 :: env where
  "env_reply2 = env0\<lparr>schedule_reply :=
     (\<lambda>_. [(''a'', Some (DueDatetime aware1)), (''zz'', Some (DueDatetime aware1))])\<rparr>"

text \<open>Request \<open>a\<close> to be postponed, request \<open>b\<close> pending.\<close>

definition mgr_p :: manager where
  "mgr_p = mgr0\<lparr>requests := [(''a'', req0\<lparr>state := Postpone, next_due := Some aware1\<rparr>), (''b'', req_b)]\<rparr>"

text \<open>Two due times in the past.\<close>

definition past1 :: datetime where
  "past1 = \<lparr>wall = - 5000000, tzinfo = Some 0\<rparr>"

definition past2 :: datetime where
  "past2 = \<lparr>wall = - 9000000, tzinfo = Some 0\<rparr>"

text \<open>
  A collection with a running request, two pending requests whose due times have
  passed (the later one first), a request in tempfail without a due time and a pending
  request that is not due yet.
\<close>

definition mk :: "string \<Rightarrow> State \<Rightarrow> datetime option \<Rightarrow> request" where
  "mk i s d = req0\<lparr>reqid := i, state := s, next_due := d, dir := Some (''/spool/requests/'' @ i)\<rparr>"

definition mgr_r :: manager where
  "mgr_r = mgr0\<lparr>requests :=
     [(''r'', mk ''r'' Running (Some aware1)), (''l'', mk ''l'' Pending (Some past1)),
      (''t'', mk ''t'' Tempfail None), (''e'', mk ''e'' Pending (Some past2)),
      (''p'', mk ''p'' Pending (Some aware2))]\<rparr>"

text \<open>
  Two due requests: the activity of \<open>c\<close> asks for a cold reboot, that of \<open>w\<close> for a
  warm one.
\<close>

definition mgr_cw :: manager where
  "mgr_cw = mgr0\<lparr>requests :=
     [(''c'', req0\<lparr>reqid := ''c'', state := Due, dir := Some ''/spool/requests/c'',
                   activity := act0\<lparr>reboot_needed := Some COLD\<rparr>\<rparr>),
      (''w'', req0\<lparr>reqid := ''w'', state := Due, dir := Some ''/spool/requests/w'',
                   activity := act0\<lparr>reboot_needed := Some WARM\<rparr>\<rparr>)]\<rparr>"

section \<open>Results\<close>

subsection \<open>\<^verbatim>\<open>update_state\<close> and the retry limit\<close>

lemma update_state_cases:
  assumes "aware (next_due r)"
  shows "\<exists>r1 w1. update_state E r w = (Inr (state (retry_check r1)), retry_check r1, w1)
           \<and> attempts r1 = attempts r \<and> next_due r1 = next_due r"
proof (cases "if state r = Pending \<or> state r = Postpone then next_due r else None")
  case None
  then show ?thesis by (auto simp: update_state_def)
next
  case (Some d)
  then have d: "next_due r = Some d" by (auto split: if_splits)
  with assms obtain off where off: "tzinfo d = Some off"
    by (auto simp: aware_def)
  show ?thesis
    using Some off by (auto simp: update_state_def utcnow_def dt_ge_def Let_def)
qed

lemma retry_check_over: "length (attempts r) > 48 \<Longrightarrow> state (retry_check r) = Retrylimit"
  by (simp add: retry_check_def MAX_RETRIES_def)

lemma retry_check_frame:
  "attempts (retry_check r) = attempts r" "next_due (retry_check r) = next_due r"
  by (simp_all add: retry_check_def)

text \<open>
  C1, as the code has it. A request with more than 48 attempts, whose due time is
  absent or carries a time zone, comes out of \<^verbatim>\<open>update_state()\<close> in state
  \<^verbatim>\<open>retrylimit\<close> whatever its state was before, \<^verbatim>\<open>deleted\<close> included, and every
  further \<^verbatim>\<open>update_state()\<close> returns \<^verbatim>\<open>retrylimit\<close> again.
\<close>

theorem C1_update_state_retrylimit:
  assumes "length (attempts r) > 48" and "aware (next_due r)"
  shows "\<exists>r' w'. update_state E r w = (Inr Retrylimit, r', w') \<and> state r' = Retrylimit
           \<and> (\<forall>E2 w2. \<exists>r'' w''. update_state E2 r' w2 = (Inr Retrylimit, r'', w'')
                 \<and> state r'' = Retrylimit)"
proof -
  obtain r1 w1 where 1: "update_state E r w = (Inr (state (retry_check r1)), retry_check r1, w1)"
    and a1: "attempts r1 = attempts r" and n1: "next_due r1 = next_due r"
    using update_state_cases [OF assms(2)] by blast
  let ?r' = "retry_check r1"
  have s1: "state ?r' = Retrylimit"
    using assms(1) a1 by (simp add: retry_check_over)
  have len': "length (attempts ?r') > 48" and aw': "aware (next_due ?r')"
    using assms a1 n1 by (simp_all add: retry_check_frame)
  have again: "\<exists>r'' w''. update_state E2 ?r' w2 = (Inr Retrylimit, r'', w'') \<and> state r'' = Retrylimit"
    for E2 w2
  proof -
    obtain r2 w3 where 2: "update_state E2 ?r' w2 = (Inr (state (retry_check r2)), retry_check r2, w3)"
      and a2: "attempts r2 = attempts ?r'"
      using update_state_cases [OF aw'] by blast
    have "state (retry_check r2) = Retrylimit"
      using len' a2 by (simp add: retry_check_over)
    with 2 show ?thesis by simp
  qed
  from 1 s1 again show ?thesis by auto
qed

theorem C1_update_state_retrylimit_witness:
  "length (attempts (req0\<lparr>state := Running, attempts := replicate 49 att0\<rparr>)) > 48
   \<and> aware (next_due (req0\<lparr>state := Running, attempts := replicate 49 att0\<rparr>))
   \<and> fst (update_state env0 (req0\<lparr>state := Running, attempts := replicate 49 att0\<rparr>) world0)
       = Inr Retrylimit"
proof -
  let ?r = "req0\<lparr>state := Running, attempts := replicate 49 att0\<rparr>"
  have h1: "length (attempts ?r) > 48" by simp
  have h2: "aware (next_due ?r)" by (simp add: req0_def aware_def)
  from C1_update_state_retrylimit [OF h1 h2, of env0 world0] h1 h2
  show ?thesis by auto
qed

text \<open>
  C1 as the spec words it makes \<^verbatim>\<open>deleted\<close> the exception and the way out of
  \<^verbatim>\<open>retrylimit\<close>. The code has no such exception: a deleted request with 49
  attempts is put back to \<^verbatim>\<open>retrylimit\<close> by \<^verbatim>\<open>update_state()\<close>.
\<close>

theorem C1_deleted_counterexample:
  "state (req0\<lparr>state := Deleted, attempts := replicate 49 att0\<rparr>) = Deleted
   \<and> update_state env0 (req0\<lparr>state := Deleted, attempts := replicate 49 att0\<rparr>) world0
     = (Inr Retrylimit, req0\<lparr>state := Retrylimit, attempts := replicate 49 att0\<rparr>, world0)"
  by (simp add: update_state_def retry_check_def MAX_RETRIES_def req0_def)

subsection \<open>\<^verbatim>\<open>update_due\<close> with a due time that lacks a time zone\<close>

text \<open>
  C10. When the new due time has no time zone, \<^verbatim>\<open>update_due\<close> raises
  \<^verbatim>\<open>TypeError\<close> after it has stored the value: the request comes back with the
  naive due time in \<^verbatim>\<open>next_due\<close>, nothing else changed, and this differs from the
  due time it had (which was absent or carried a time zone).
\<close>

theorem C10_update_due_not_atomic:
  assumes "new_due E due = Inr (Some d)" and "tzinfo d = None" and "aware (next_due r)"
  shows "update_due E due r w = (Inl TypeError, r\<lparr>next_due := Some d\<rparr>, w)
         \<and> next_due (r\<lparr>next_due := Some d\<rparr>) \<noteq> next_due r
         \<and> opt_dt_ne (next_due (r\<lparr>next_due := Some d\<rparr>)) (next_due r)"
  using assms
  by (auto simp: update_due_def lacks_tz_def aware_def opt_dt_ne_def dt_eq_def
           split: option.splits)

theorem C10_update_due_not_atomic_witness:
  "new_due env0 (DueDatetime naive1) = Inr (Some naive1) \<and> tzinfo naive1 = None
   \<and> aware (next_due (req0\<lparr>next_due := Some aware1\<rparr>))
   \<and> update_due env0 (DueDatetime naive1) (req0\<lparr>next_due := Some aware1\<rparr>) world0
       = (Inl TypeError, req0\<lparr>next_due := Some naive1\<rparr>, world0)"
proof -
  let ?r = "req0\<lparr>next_due := Some aware1\<rparr>"
  have h1: "new_due env0 (DueDatetime naive1) = Inr (Some naive1)" by (simp add: new_due_def)
  have h2: "tzinfo naive1 = None" by (simp add: naive1_def)
  have h3: "aware (next_due ?r)" by (simp add: aware_def aware1_def)
  from C10_update_due_not_atomic [OF h1 h2 h3, of world0] h1 h2 h3
  show ?thesis by simp
qed

subsection \<open>Equality and order of requests\<close>

text \<open>
  C4. Two requests are equal exactly when their ids are equal. When both have a due
  time (both with a time zone, or both without), the one that is due earlier is the
  lesser; a request with a due time is less than one without and never the other way
  round; two requests without a due time compare as their ids do.
\<close>

theorem C4_request_eq_lt:
  "(eq a (Req b) \<longleftrightarrow> reqid a = reqid b)
   \<and> (\<forall>x y. next_due a = Some x \<and> next_due b = Some y \<and> (tzinfo x = None \<longleftrightarrow> tzinfo y = None)
        \<longrightarrow> lt a b = Inr (instant x < instant y))
   \<and> (next_due a \<noteq> None \<and> next_due b = None \<longrightarrow> lt a b = Inr True \<and> lt b a = Inr False)
   \<and> (next_due a = None \<and> next_due b = None \<longrightarrow> lt a b = Inr (reqid a < reqid b))"
  by (auto simp: eq_def lt_def dt_lt_def instant_def split: option.splits)

theorem C4_request_eq_lt_witness:
  "lt (req0\<lparr>next_due := Some aware2\<rparr>) (req0\<lparr>reqid := ''b'', next_due := Some aware1\<rparr>) = Inr False
   \<and> lt (req0\<lparr>reqid := ''b'', next_due := Some aware1\<rparr>) (req0\<lparr>next_due := Some aware2\<rparr>) = Inr True
   \<and> lt (req0\<lparr>reqid := ''b'', next_due := Some aware1\<rparr>) req0 = Inr True
   \<and> lt req0 (req0\<lparr>reqid := ''b'', next_due := Some aware1\<rparr>) = Inr False
   \<and> lt req0 (req0\<lparr>reqid := ''b''\<rparr>) = Inr True
   \<and> lt (req0\<lparr>reqid := ''b''\<rparr>) req0 = Inr False
   \<and> eq req0 (Req (req0\<lparr>comment := Some ''x''\<rparr>))
   \<and> \<not> eq req0 (Req (req0\<lparr>reqid := ''b''\<rparr>))"
proof -
  let ?b1 = "req0\<lparr>reqid := ''b'', next_due := Some aware1\<rparr>"
  let ?a2 = "req0\<lparr>next_due := Some aware2\<rparr>"
  let ?b = "req0\<lparr>reqid := ''b''\<rparr>"
  have i: "instant aware1 = 5000000" "instant aware2 = 9000000"
    by (simp_all add: instant_def aware1_def aware2_def)
  have t: "tzinfo aware1 \<noteq> None" "tzinfo aware2 \<noteq> None"
    by (simp_all add: aware1_def aware2_def)
  have n: "next_due req0 = None" "reqid req0 = ''a''" by (simp_all add: req0_def)
  show ?thesis
    using C4_request_eq_lt [of ?a2 ?b1] C4_request_eq_lt [of ?b1 ?a2]
      C4_request_eq_lt [of ?b1 req0] C4_request_eq_lt [of req0 ?b]
      C4_request_eq_lt [of ?b req0] C4_request_eq_lt [of req0 "req0\<lparr>comment := Some ''x''\<rparr>"]
      i t n
    by simp
qed

subsection \<open>What the methods of a request do to the outside\<close>

lemma grows_refl: "grows P w w"
  by (simp add: grows_def)

lemma grows_same: "trace w' = trace w \<Longrightarrow> grows P w w'"
  by (simp add: grows_def)

lemma grows_trans: "grows P w w1 \<Longrightarrow> grows P w1 w2 \<Longrightarrow> grows P w w2"
  by (auto simp: grows_def)

lemma grows_mono: "grows P w w' \<Longrightarrow> (\<And>e. P e \<Longrightarrow> Q e) \<Longrightarrow> grows Q w w'"
  by (auto simp: grows_def list_all_iff)

lemma grows_ext: "P e \<Longrightarrow> ext E e x w = (res, w') \<Longrightarrow> grows P w w'"
  by (auto simp: grows_def ext_def)

lemma grows_with_cd:
  assumes b: "\<And>s w res s' w'. body s w = (res, s', w') \<Longrightarrow> grows P w w'"
    and c: "\<And>d. P (Chdir d)"
    and r: "with_cd E d body s w = (res, s', w')"
  shows "grows P w w'"
proof -
  obtain r1 w1 where e1: "ext E (Chdir d) OSError w = (r1, w1)" by (cases "ext E (Chdir d) OSError w")
  have g1: "grows P w w1" using grows_ext [where P = P, OF c e1] .
  show ?thesis
  proof (cases r1)
    case (Inl x)
    with r e1 have "w' = w1" by (simp add: with_cd_def Let_def)
    with g1 show ?thesis by simp
  next
    case (Inr u)
    obtain rb sb wb where eb: "body s (w1\<lparr>cwd := d\<rparr>) = (rb, sb, wb)"
      by (cases "body s (w1\<lparr>cwd := d\<rparr>)")
    have g2: "grows P (w1\<lparr>cwd := d\<rparr>) wb" using b [OF eb] .
    have g2': "grows P w1 (w1\<lparr>cwd := d\<rparr>)" by (simp add: grows_same)
    obtain r3 w3 where e3: "ext E (Chdir (cwd w)) OSError wb = (r3, w3)"
      by (cases "ext E (Chdir (cwd w)) OSError wb")
    have g3: "grows P wb w3" using grows_ext [where P = P, OF c e3] .
    have "trace w' = trace w3"
      using r e1 Inr eb e3 by (auto simp: with_cd_def Let_def split: sum.splits)
    then have "grows P w3 w'" by (simp add: grows_same)
    with g1 g2' g2 g3 show ?thesis by (blast intro: grows_trans)
  qed
qed

lemma grows_save: "save E r w = (res, w') \<Longrightarrow> grows request_event w w'"
proof -
  assume s: "save E r w = (res, w')"
  show ?thesis
  proof (cases "dir r")
    case None
    with s show ?thesis by (simp add: save_def grows_refl)
  next
    case (Some d)
    show ?thesis
    proof (cases "d = []")
      case True
      with s Some show ?thesis by (simp add: save_def grows_refl)
    next
      case False
      obtain r1 w1 where e1: "ext E (WriteRequest d) OSError w = (r1, w1)"
        by (cases "ext E (WriteRequest d) OSError w")
      have g1: "grows request_event w w1" using grows_ext [where P = request_event, OF _ e1] by simp
      show ?thesis
      proof (cases r1)
        case (Inl x)
        with s Some False e1 show ?thesis using g1 by (simp add: save_def)
      next
        case (Inr u)
        let ?w2 = "w1\<lparr>disk := (disk w1)(d \<mapsto> r)\<rparr>"
        obtain r3 u3 w3 where e3: "with_cd E d (dump_activity E d) () ?w2 = (r3, u3, w3)"
          by (cases "with_cd E d (dump_activity E d) () ?w2")
        have "grows request_event ?w2 w3"
        proof (rule grows_with_cd [OF _ _ e3])
          fix s w res s' w' assume "dump_activity E d s w = (res, s', w')"
          then show "grows request_event w w'"
            by (auto simp: dump_activity_def split: prod.splits intro: grows_ext [where P = request_event and e = "DumpActivity d"])
        qed simp
        moreover have "grows request_event w1 ?w2" by (simp add: grows_same)
        moreover have "w' = w3" using s Some False e1 Inr e3 by (simp add: save_def)
        ultimately show ?thesis using g1 by (blast intro: grows_trans)
      qed
    qed
  qed
qed

lemma save_not_KeyError: "save E r w = (Inl x, w') \<Longrightarrow> x \<noteq> KeyError"
  by (auto simp: save_def ext_def with_cd_def dump_activity_def Let_def
           split: option.splits if_splits sum.splits prod.splits)

lemma update_state_trace: "update_state E r w = (res, r', w') \<Longrightarrow> trace w' = trace w"
  by (auto simp: update_state_def utcnow_def Let_def split: option.splits sum.splits if_splits)

lemma update_state_not_KeyError: "update_state E r w = (Inl x, r', w') \<Longrightarrow> x \<noteq> KeyError"
  by (auto simp: update_state_def utcnow_def dt_ge_def Let_def split: option.splits sum.splits if_splits)

lemma update_due_trace: "update_due E due r w = (res, r', w') \<Longrightarrow> trace w' = trace w"
  by (auto simp: update_due_def Let_def split: sum.splits if_splits prod.splits
           dest: update_state_trace)

lemma update_due_not_KeyError: "update_due E due r w = (Inl x, r', w') \<Longrightarrow> x \<noteq> KeyError"
  by (auto simp: update_due_def new_due_def Let_def split: sum.splits if_splits prod.splits due_arg.splits option.splits
           dest: update_state_not_KeyError)

lemma ext_ok: "no_failures E \<Longrightarrow> ext E e x w = (Inr (), w\<lparr>trace := trace w @ [e]\<rparr>)"
  by (simp add: ext_def no_failures_def)

subsection \<open>\<^verbatim>\<open>Request.execute\<close>\<close>

lemma save_ok:
  assumes "no_failures E" "dir r = Some d" "d \<noteq> []"
  shows "save E r w =
    (Inr (), w\<lparr>trace := trace w @ [WriteRequest d, Chdir d, DumpActivity d, Chdir (cwd w)],
               disk := (disk w)(d \<mapsto> r)\<rparr>)"
  using assms
  by (simp add: save_def ext_def with_cd_def dump_activity_def no_failures_def Let_def)

lemma execute_try_raise:
  assumes nf: "no_failures E" and d: "dir r = Some d" "d \<noteq> []"
    and run: "\<forall>t. snd (run_activity E t (r\<lparr>state := Running\<rparr>)) = Some msg"
  shows "\<exists>act w1. execute_try E ev (r, a) w =
     (Inr (), (r\<lparr>state := ev (act_returncode act), activity := act,
                 attempts := attempts r @ [a\<lparr>att_returncode := Some 70, att_stderr := Some msg\<rparr>]\<rparr>,
               a\<lparr>att_returncode := Some 70, att_stderr := Some msg\<rparr>), w1)"
proof -
  let ?r1 = "r\<lparr>state := Running\<rparr>"
  have d1: "dir ?r1 = Some d" using d by simp
  note s = save_ok [OF nf d1 d(2)]
  let ?w1 = "w\<lparr>trace := trace w @ [WriteRequest d, Chdir d, DumpActivity d, Chdir (cwd w)],
               disk := (disk w)(d \<mapsto> ?r1)\<rparr>"
  let ?w2 = "?w1\<lparr>trace := trace ?w1 @ [Chdir d], cwd := d\<rparr>"
  obtain act where act: "run_activity E (trace ?w2) ?r1 = (act, Some msg)"
    using run by (metis prod.collapse)
  have "with_cd E d (run_and_record E) (?r1, a) ?w1 =
     (Inr (), (?r1\<lparr>activity := act\<rparr>, a\<lparr>att_returncode := Some 70, att_stderr := Some msg\<rparr>),
       ?w2\<lparr>trace := trace ?w2 @ [RunActivity (reqid r), Chdir (cwd w)], cwd := cwd w\<rparr>)"
    using nf act
    by (simp add: with_cd_def ext_def no_failures_def Let_def run_and_record_def)
  then show ?thesis
    using s d1 by (intro exI [of _ act]) (simp add: execute_try_def Let_def)
qed

lemma execute_raise:
  assumes nf: "no_failures E" and d: "has_dir r"
    and run: "\<forall>t. snd (run_activity E t (r\<lparr>state := Running\<rparr>)) = Some msg"
  shows "\<exists>r' w'. execute E ev r w = (Inr (), r', w')
     \<and> attempts r' = attempts r @ [fst (Attempt E w)\<lparr>att_returncode := Some 70, att_stderr := Some msg\<rparr>]
     \<and> state r' = ev (act_returncode (activity r'))"
proof -
  obtain a w0 where a: "Attempt E w = (a, w0)" by (cases "Attempt E w")
  obtain d where dd: "dir r = Some d" "d \<noteq> []"
    using d by (auto simp: has_dir_def split: option.splits)
  from execute_try_raise [OF nf dd run, of ev a w0]
  obtain act w1 where t: "execute_try E ev (r, a) w0 =
     (Inr (), (r\<lparr>state := ev (act_returncode act), activity := act,
                 attempts := attempts r @ [a\<lparr>att_returncode := Some 70, att_stderr := Some msg\<rparr>]\<rparr>,
               a\<lparr>att_returncode := Some 70, att_stderr := Some msg\<rparr>), w1)" by blast
  show ?thesis using a t by (simp add: execute_def Let_def split: prod.splits)
qed

lemma execute_harness_error:
  assumes "execute_try E ev (r, fst (Attempt E w)) (snd (Attempt E w)) = (Inl x, ra, w1)"
  shows "state (fst (snd (execute E ev r w))) = Error"
  using assms by (cases "Attempt E w") (simp add: execute_def Let_def split: prod.splits)

lemma no_failures_env0: "no_failures env0" "no_failures env_raise"
  by (simp_all add: no_failures_def env0_def env_raise_def)

text \<open>
  C3. \<^verbatim>\<open>Request.execute()\<close> always returns. When \<^verbatim>\<open>activity.run()\<close> raises
  (and the bookkeeping around it works), the attempt appended to the history is the
  fresh attempt with return code 70 and the exception's text as stderr, and the state is
  what the exit-code mapping makes of the activity's return code: \<^verbatim>\<open>error\<close> unless
  the mapping says otherwise. When the \<^verbatim>\<open>try\<close> block itself raises, the state
  is \<^verbatim>\<open>error\<close>.
\<close>

theorem C3_execute_never_raises:
  "fst (execute E ev r w) = Inr ()
   \<and> (\<forall>msg. no_failures E \<and> has_dir r
          \<and> (\<forall>t. snd (run_activity E t (r\<lparr>state := Running\<rparr>)) = Some msg)
        \<longrightarrow> attempts (fst (snd (execute E ev r w)))
              = attempts r @ [fst (Attempt E w)\<lparr>att_returncode := Some 70, att_stderr := Some msg\<rparr>]
            \<and> state (fst (snd (execute E ev r w)))
              = ev (act_returncode (activity (fst (snd (execute E ev r w)))))
            \<and> (ev (act_returncode (activity (fst (snd (execute E ev r w))))) = Error
                 \<longrightarrow> state (fst (snd (execute E ev r w))) = Error))
   \<and> (\<forall>x ra w1. execute_try E ev (r, fst (Attempt E w)) (snd (Attempt E w)) = (Inl x, ra, w1)
        \<longrightarrow> state (fst (snd (execute E ev r w))) = Error)"
proof (intro conjI allI impI)
  show "fst (execute E ev r w) = Inr ()"
    by (simp add: execute_def Let_def split: prod.splits)
next
  fix msg
  assume h: "no_failures E \<and> has_dir r
          \<and> (\<forall>t. snd (run_activity E t (r\<lparr>state := Running\<rparr>)) = Some msg)"
  then obtain r' w' where e: "execute E ev r w = (Inr (), r', w')"
    and a: "attempts r' = attempts r @ [fst (Attempt E w)\<lparr>att_returncode := Some 70, att_stderr := Some msg\<rparr>]"
    and s: "state r' = ev (act_returncode (activity r'))"
    using execute_raise [of E r msg ev w] by blast
  show "attempts (fst (snd (execute E ev r w)))
      = attempts r @ [fst (Attempt E w)\<lparr>att_returncode := Some 70, att_stderr := Some msg\<rparr>]"
    using e a by simp
  show s': "state (fst (snd (execute E ev r w)))
      = ev (act_returncode (activity (fst (snd (execute E ev r w)))))"
    using e s by simp
  assume "ev (act_returncode (activity (fst (snd (execute E ev r w))))) = Error"
  with s' show "state (fst (snd (execute E ev r w))) = Error" by simp
next
  fix x ra w1
  assume "execute_try E ev (r, fst (Attempt E w)) (snd (Attempt E w)) = (Inl x, ra, w1)"
  then show "state (fst (snd (execute E ev r w))) = Error"
    by (rule execute_harness_error)
qed

text \<open>
  The witness: an activity that raises \<open>boom\<close> and leaves its return code unset, and a
  request without a directory, whose first \<^verbatim>\<open>save()\<close> fails its assertion.
\<close>

theorem C3_execute_never_raises_witness:
  "no_failures env_raise \<and> has_dir req0
   \<and> (\<forall>t. snd (run_activity env_raise t (req0\<lparr>state := Running\<rparr>)) = Some ''boom'')
   \<and> fst (execute env_raise ev0 req0 world0) = Inr ()
   \<and> map att_returncode (attempts (fst (snd (execute env_raise ev0 req0 world0)))) = [Some 70]
   \<and> state (fst (snd (execute env_raise ev0 req0 world0))) = Error
   \<and> execute_try env0 ev0 (req0\<lparr>dir := None\<rparr>, fst (Attempt env0 world0)) (snd (Attempt env0 world0))
       = (Inl AssertionError, (req0\<lparr>dir := None, state := Running\<rparr>, fst (Attempt env0 world0)),
          snd (Attempt env0 world0))
   \<and> state (fst (snd (execute env0 ev0 (req0\<lparr>dir := None\<rparr>) world0))) = Error"
proof -
  have h1: "no_failures env_raise" by (rule no_failures_env0)
  have h2: "has_dir req0" by (simp add: has_dir_def req0_def)
  have h3: "\<forall>t. snd (run_activity env_raise t (req0\<lparr>state := Running\<rparr>)) = Some ''boom''"
    by (simp add: env_raise_def)
  have rc: "ev0 (act_returncode (activity (fst (snd (execute env_raise ev0 req0 world0))))) = Error"
    by (simp add: execute_def execute_try_def Attempt_def utcnow_def save_def ext_def with_cd_def
        dump_activity_def run_and_record_def env_raise_def env0_def req0_def act0_def world0_def
        ev0_def Let_def)
  have h4: "execute_try env0 ev0 (req0\<lparr>dir := None\<rparr>, fst (Attempt env0 world0)) (snd (Attempt env0 world0))
       = (Inl AssertionError, (req0\<lparr>dir := None, state := Running\<rparr>, fst (Attempt env0 world0)),
          snd (Attempt env0 world0))"
    by (simp add: execute_try_def save_def Let_def)
  have h5: "attempts req0 = []" by (simp add: req0_def)
  from C3_execute_never_raises [of env_raise ev0 req0 world0]
    C3_execute_never_raises [of env0 ev0 "req0\<lparr>dir := None\<rparr>" world0] h1 h2 h3 h4 h5 rc
  show ?thesis by simp
qed

text \<open>
  The attempt of a run that returns: \<^verbatim>\<open>Attempt.record\<close> sets the time of finishing
  and a duration, the activity's own when it has one and the elapsed time otherwise.
\<close>

lemma record_attempt_finalizes:
  assumes "tzinfo (started a) = Some off"
  shows "\<exists>a' w'. record_attempt E act a w = (Inr (), a', w')
     \<and> finished a' = Some (fst (utcnow E w))
     \<and> (truthy (act_duration act) \<longrightarrow> att_duration a' = act_duration act)
     \<and> (\<not> truthy (act_duration act) \<and> \<not> truthy (att_duration a) \<longrightarrow>
          att_duration a' = Some (real_of_int (instant (fst (utcnow E w)) - instant (started a)) / 1000000))"
  using assms
  by (simp add: record_attempt_def utcnow_def total_seconds_def instant_def Let_def)

text \<open>
  C8 fails on the code where \<^verbatim>\<open>activity.run()\<close> raises: \<^verbatim>\<open>attempt.record\<close>
  is skipped, so the attempt that \<^verbatim>\<open>execute()\<close> appends has neither a time of
  finishing nor a duration. Here the clock is read once, at the start of the attempt.
\<close>

theorem C8_raised_run_attempt_not_finalized:
  "attempts (fst (snd (execute env_raise ev0 req0 world0)))
     = [\<lparr>started = \<lparr>wall = 0, tzinfo = Some 0\<rparr>, finished = None, att_duration = None,
         att_stdout = None, att_stderr = Some ''boom'', att_returncode = Some 70\<rparr>]
   \<and> ticks (snd (snd (execute env_raise ev0 req0 world0))) = 1"
  by (simp add: execute_def execute_try_def Attempt_def utcnow_def save_def ext_def with_cd_def
        dump_activity_def run_and_record_def env_raise_def env0_def req0_def act0_def world0_def
        ev0_def Let_def)

subsection \<open>\<^verbatim>\<open>ReqManager.add\<close>\<close>

lemma find_by_comment_Some:
  assumes "q \<in> snd ` set (requests m)" "comment q = Some c"
  shows "find_by_comment m c \<noteq> None"
  using assms by (auto simp: find_by_comment_def find_None_iff)

lemma add_skip:
  assumes "comment r = Some c" "c \<noteq> []" "q \<in> snd ` set (requests m)" "comment q = Some c"
  shows "add E (Some r) True m w = (Inr None, m, w)"
  using find_by_comment_Some [OF assms(3,4)] assms(1,2)
  by (auto simp: add_def split: option.splits)

lemma do_add_registers:
  fixes r m E w
  defines "r1 \<equiv> r\<lparr>dir := Some (mgr_dir m r), added_at := Some (fst (utcnow E w))\<rparr>"
  shows "fst (snd (do_add E r m w)) = set_request r1 m"
    and "map_of (requests (set_request r1 m)) (reqid r) = Some r1"
    and "no_failures E \<Longrightarrow> fst (do_add E r m w) = Inr (Some r1)
           \<and> disk (snd (snd (do_add E r m w))) (mgr_dir m r) = Some r1"
proof -
  show "fst (snd (do_add E r m w)) = set_request r1 m"
    by (simp add: do_add_def r1_def Let_def split: prod.splits sum.splits)
  show "map_of (requests (set_request r1 m)) (reqid r) = Some r1"
    by (simp add: set_request_def r1_def update_conv')
  assume nf: "no_failures E"
  have d: "dir r1 = Some (mgr_dir m r)" "mgr_dir m r \<noteq> []"
    by (simp_all add: r1_def mgr_dir_def)
  obtain now w1 where u: "utcnow E w = (now, w1)" by (cases "utcnow E w")
  have r1: "r\<lparr>dir := Some (mgr_dir m r), added_at := Some now\<rparr> = r1"
    using u by (simp add: r1_def)
  show "fst (do_add E r m w) = Inr (Some r1)
           \<and> disk (snd (snd (do_add E r m w))) (mgr_dir m r) = Some r1"
    by (simp add: do_add_def Let_def u r1 save_ok [OF nf d])
qed

text \<open>
  C9. With \<^verbatim>\<open>skip_same_comment=True\<close>, a request whose comment is not empty and
  is the comment of a request in the collection is not added: \<^verbatim>\<open>add\<close> returns
  \<^verbatim>\<open>None\<close> and the manager and the outside are as before. With
  \<^verbatim>\<open>skip_same_comment=False\<close> the request is put into the collection under its
  id, with its directory and the time of adding set, and it is what \<^verbatim>\<open>add\<close>
  returns and what the file in its directory holds when nothing outside fails.
\<close>

theorem C9_add:
  "(\<forall>c q. comment r = Some c \<and> c \<noteq> [] \<and> q \<in> snd ` set (requests m) \<and> comment q = Some c
       \<longrightarrow> add E (Some r) True m w = (Inr None, m, w))
   \<and> (let r1 = r\<lparr>dir := Some (mgr_dir m r), added_at := Some (fst (utcnow E w))\<rparr>;
           res = add E (Some r) False m w
       in fst (snd res) = set_request r1 m
          \<and> map_of (requests (fst (snd res))) (reqid r) = Some r1
          \<and> (no_failures E \<longrightarrow>
                fst res = Inr (Some r1) \<and> disk (snd (snd res)) (mgr_dir m r) = Some r1))"
proof -
  have a: "add E (Some r) False m w = do_add E r m w"
    by (simp add: add_def)
  have "\<forall>c q. comment r = Some c \<and> c \<noteq> [] \<and> q \<in> snd ` set (requests m) \<and> comment q = Some c
       \<longrightarrow> add E (Some r) True m w = (Inr None, m, w)"
    using add_skip by blast
  then show ?thesis
    using do_add_registers [where r = r and m = m and E = E and w = w] by (simp add: a Let_def)
qed

text \<open>
  The witness: a collection with one request commented \<open>update\<close>; a second request
  with the same comment is skipped, or added when skipping is off.
\<close>

theorem C9_add_witness:
  "comment (req0\<lparr>reqid := ''b'', comment := Some ''update''\<rparr>) = Some ''update''
   \<and> req0\<lparr>comment := Some ''update''\<rparr>
        \<in> snd ` set (requests (mgr0\<lparr>requests := [(''a'', req0\<lparr>comment := Some ''update''\<rparr>)]\<rparr>))
   \<and> no_failures env0
   \<and> add env0 (Some (req0\<lparr>reqid := ''b'', comment := Some ''update''\<rparr>)) True
        (mgr0\<lparr>requests := [(''a'', req0\<lparr>comment := Some ''update''\<rparr>)]\<rparr>) world0
      = (Inr None, mgr0\<lparr>requests := [(''a'', req0\<lparr>comment := Some ''update''\<rparr>)]\<rparr>, world0)
   \<and> map fst (requests (fst (snd
        (add env0 (Some (req0\<lparr>reqid := ''b'', comment := Some ''update''\<rparr>)) False
          (mgr0\<lparr>requests := [(''a'', req0\<lparr>comment := Some ''update''\<rparr>)]\<rparr>) world0))))
      = [''a'', ''b'']
   \<and> fst (add env0 (Some (req0\<lparr>reqid := ''b'', comment := Some ''update''\<rparr>)) False
          (mgr0\<lparr>requests := [(''a'', req0\<lparr>comment := Some ''update''\<rparr>)]\<rparr>) world0)
      = Inr (Some (req0\<lparr>reqid := ''b'', comment := Some ''update'',
                       dir := Some ''/spool/requests/b'',
                       added_at := Some \<lparr>wall = 0, tzinfo = Some 0\<rparr>\<rparr>))"
proof -
  let ?q = "req0\<lparr>comment := Some ''update''\<rparr>"
  let ?r = "req0\<lparr>reqid := ''b'', comment := Some ''update''\<rparr>"
  let ?m = "mgr0\<lparr>requests := [(''a'', ?q)]\<rparr>"
  have h1: "comment ?r = Some ''update''" by simp
  have h2: "?q \<in> snd ` set (requests ?m)" by simp
  have h3: "no_failures env0" by (rule no_failures_env0)
  have h4: "comment ?q = Some ''update''" by simp
  have e: "mgr_dir ?m ?r = ''/spool/requests/b''" "fst (utcnow env0 world0) = \<lparr>wall = 0, tzinfo = Some 0\<rparr>"
    by (simp_all add: mgr_dir_def mgr0_def utcnow_def env0_def world0_def)
  have k: "map fst (requests (set_request
       (?r\<lparr>dir := Some ''/spool/requests/b'', added_at := Some \<lparr>wall = 0, tzinfo = Some 0\<rparr>\<rparr>) ?m))
        = [''a'', ''b'']"
    by (simp add: set_request_def)
  from C9_add [of ?r ?m env0 world0] h1 h2 h3 h4 e k
  show ?thesis by (simp add: Let_def)
qed

subsection \<open>\<^verbatim>\<open>ReqManager.schedule\<close>\<close>

lemma keys_put_request:
  "map_of (requests m) k \<noteq> None \<Longrightarrow> map fst (requests (put_request k r m)) = map fst (requests m)"
  by (auto simp: put_request_def update_keys map_of_eq_None_iff)

lemma schedule_one_KeyError:
  "schedule_one E key val m w = (Inl KeyError, m', w') \<longleftrightarrow>
     missing m (key, val) \<and> m' = m \<and> w' = w"
proof (cases "missing m (key, val)")
  case True
  then show ?thesis by (auto simp: schedule_one_def missing_def split: option.splits)
next
  case False
  then obtain req due where p: "map_of (requests m) key = Some req" "val = Some due"
    by (auto simp: missing_def)
  have "schedule_one E key val m w \<noteq> (Inl KeyError, m', w')"
    using p
    by (auto simp: schedule_one_def Let_def split: prod.splits sum.splits if_splits
             dest: update_due_not_KeyError save_not_KeyError)
  with False show ?thesis by simp
qed

lemma schedule_one_present:
  assumes "schedule_one E key val m w = (res, m', w')" "\<not> missing m (key, val)"
  shows "grows request_event w w' \<and> map fst (requests m') = map fst (requests m)"
proof -
  from assms(2) obtain req due where p: "map_of (requests m) key = Some req" "val = Some due"
    by (auto simp: missing_def)
  obtain r1 req1 w1 where u: "update_due E due req w = (r1, req1, w1)"
    by (cases "update_due E due req w")
  have t1: "grows request_event w w1" using update_due_trace [OF u] by (simp add: grows_same)
  have k: "\<And>q. map fst (requests (put_request key q m)) = map fst (requests m)"
    using p(1) by (simp add: keys_put_request)
  show ?thesis
  proof (cases r1)
    case (Inl x)
    with assms(1) p u t1 k show ?thesis by (auto simp: schedule_one_def)
  next
    case (Inr changed)
    show ?thesis
    proof (cases changed)
      case False
      with assms(1) p u Inr t1 k show ?thesis by (auto simp: schedule_one_def)
    next
      case True
      obtain now w2 where n: "utcnow E w1 = (now, w2)" by (cases "utcnow E w1")
      then have t2: "grows request_event w1 w2" by (auto simp: utcnow_def grows_same)
      obtain r3 w3 where s: "save E (req1\<lparr>last_scheduled_at := Some now\<rparr>) w2 = (r3, w3)"
        by (cases "save E (req1\<lparr>last_scheduled_at := Some now\<rparr>) w2")
      have t3: "grows request_event w2 w3" using grows_save [OF s] .
      have "w' = w3" "m' = put_request key (req1\<lparr>last_scheduled_at := Some now\<rparr>) m"
        using assms(1) p u Inr True n s by (auto simp: schedule_one_def Let_def)
      with t1 t2 t3 k show ?thesis by (blast intro: grows_trans)
    qed
  qed
qed

lemma missing_keys: "map fst (requests m') = map fst (requests m) \<Longrightarrow> missing m' kv = missing m kv"
proof -
  assume "map fst (requests m') = map fst (requests m)"
  then have "fst ` set (requests m') = fst ` set (requests m)"
    by (metis list.set_map)
  then show ?thesis by (simp add: missing_def map_of_eq_None_iff)
qed

lemma schedule_loop_result:
  assumes "schedule_loop E reply dis m w = (Inr dis', m', w')"
  shows "set dis' = set dis \<union> fst ` {kv \<in> set reply. missing m kv}
         \<and> grows request_event w w' \<and> map fst (requests m') = map fst (requests m)"
  using assms
proof (induction reply arbitrary: dis m w)
  case Nil
  then show ?case by (simp add: grows_refl)
next
  case (Cons kv reply)
  obtain key val where kv: "kv = (key, val)" by (cases kv)
  obtain r1 m1 w1 where o: "schedule_one E key val m w = (r1, m1, w1)"
    by (cases "schedule_one E key val m w")
  show ?case
  proof (cases "missing m (key, val)")
    case True
    then have o': "schedule_one E key val m w = (Inl KeyError, m, w)"
      by (simp add: schedule_one_KeyError)
    with Cons.prems kv have "schedule_loop E reply (List.insert key dis) m w = (Inr dis', m', w')"
      by simp
    from Cons.IH [OF this]
    have "set dis' = insert key (set dis) \<union> fst ` {kv \<in> set reply. missing m kv}"
      and g: "grows request_event w w'" and k: "map fst (requests m') = map fst (requests m)"
      by auto
    moreover have "fst ` {x \<in> set (kv # reply). missing m x}
         = insert key (fst ` {x \<in> set reply. missing m x})"
      using True kv by force
    ultimately show ?thesis by simp
  next
    case False
    from schedule_one_present [OF o False]
    have g: "grows request_event w w1" and k: "map fst (requests m1) = map fst (requests m)"
      by blast+
    have ne: "r1 \<noteq> Inl KeyError"
      using o False by (auto simp: schedule_one_KeyError)
    have "schedule_loop E reply dis m1 w1 = (Inr dis', m', w')"
      using Cons.prems kv o ne by (cases r1) (auto split: if_splits)
    from Cons.IH [OF this] 
    have "set dis' = set dis \<union> fst ` {kv \<in> set reply. missing m1 kv}"
      and "grows request_event w1 w'" and "map fst (requests m') = map fst (requests m1)"
      by blast+
    with g k False kv show ?thesis
      by (auto simp: missing_keys [OF k] intro: grows_trans)
  qed
qed


lemma end_maintenance_calls_append:
  "end_maintenance_calls (a @ b) = end_maintenance_calls a @ end_maintenance_calls b"
  by (induction a rule: end_maintenance_calls.induct) simp_all

lemma end_maintenance_calls_none:
  "list_all P es \<Longrightarrow> (\<And>ps. \<not> P (EndMaintenance ps)) \<Longrightarrow> end_maintenance_calls es = []"
  by (induction es rule: end_maintenance_calls.induct) auto

lemma require_directory_result:
  assumes "require_directory E m w = (res, m1, w1)"
  shows "requests m1 = requests m \<and> lockfile m1 = lockfile m \<and> config m1 = config m
     \<and> (\<exists>es. trace w1 = trace w @ es \<and> list_all (\<lambda>e. e = Connect) es)"
  using assms
  by (auto simp: require_directory_def ext_def split: if_splits)

lemma no_failures_reply: "no_failures env_reply1" "no_failures env_reply2"
  by (simp_all add: no_failures_def env_reply1_def env_reply2_def env0_def)

lemma update_due_a:
  assumes "clock E (ticks w) = 0"
  shows "update_due E (DueDatetime aware1) req0 w
     = (Inr True, req0\<lparr>next_due := Some aware1\<rparr>, w\<lparr>ticks := Suc (ticks w)\<rparr>)"
  using assms
  by (simp add: update_due_def new_due_def lacks_tz_def update_state_def retry_check_def
      MAX_RETRIES_def utcnow_def dt_ge_def opt_dt_ne_def req0_def aware1_def Let_def)

lemma schedule_one_a:
  assumes nf: "no_failures E" and c: "clock E 0 = 0" "clock E 1 = 1000000"
    and w: "ticks w = 0" "cwd w = ''/''"
  shows "schedule_one E ''a'' (Some (DueDatetime aware1)) mgr_ab w
     = (Inr (),
        mgr_ab\<lparr>requests := [(''a'', req0\<lparr>next_due := Some aware1,
                  last_scheduled_at := Some \<lparr>wall = 1000000, tzinfo = Some 0\<rparr>\<rparr>), (''b'', req_b)]\<rparr>,
        w\<lparr>ticks := 2, trace := trace w @ [WriteRequest ''/spool/requests/a'', Chdir ''/spool/requests/a'',
          DumpActivity ''/spool/requests/a'', Chdir ''/''],
          disk := (disk w)(''/spool/requests/a'' \<mapsto> req0\<lparr>next_due := Some aware1,
                  last_scheduled_at := Some \<lparr>wall = 1000000, tzinfo = Some 0\<rparr>\<rparr>)\<rparr>)"
proof -
  let ?r2 = "req0\<lparr>next_due := Some aware1, last_scheduled_at := Some \<lparr>wall = 1000000, tzinfo = Some 0\<rparr>\<rparr>"
  have d: "dir ?r2 = Some ''/spool/requests/a''" by (simp add: req0_def)
  have l: "map_of (requests mgr_ab) ''a'' = Some req0" by (simp add: mgr_ab_def)
  have u: "update_due E (DueDatetime aware1) req0 w
     = (Inr True, req0\<lparr>next_due := Some aware1\<rparr>, w\<lparr>ticks := Suc 0\<rparr>)"
    using update_due_a [of E w] c w by simp
  show ?thesis
    using c w
    by (simp add: schedule_one_def l u utcnow_def Let_def save_ok [OF nf d] put_request_def mgr_ab_def)
qed


lemma schedule_eval1:
  "schedule env_reply1 mgr_ab world0 =
     (Inr (),
      mgr_ab\<lparr>requests := [(''a'', req0\<lparr>next_due := Some aware1,
                  last_scheduled_at := Some \<lparr>wall = 1000000, tzinfo = Some 0\<rparr>\<rparr>), (''b'', req_b)]\<rparr>,
      world0\<lparr>trace := [ScheduleMaintenance [(''a'', 1800, None), (''b'', 1800, None)],
          WriteRequest ''/spool/requests/a'', Chdir ''/spool/requests/a'',
          DumpActivity ''/spool/requests/a'', Chdir ''/''],
        disk := [''/spool/requests/a'' \<mapsto> req0\<lparr>next_due := Some aware1,
                  last_scheduled_at := Some \<lparr>wall = 1000000, tzinfo = Some 0\<rparr>\<rparr>],
        ticks := 2\<rparr>)"
proof -
  let ?w2 = "world0\<lparr>trace := [ScheduleMaintenance [(''a'', 1800, None), (''b'', 1800, None)]]\<rparr>"
  have arg: "map (\<lambda>(reqid, req). (reqid, estimate req, comment req)) (requests mgr_ab)
      = [(''a'', 1800, None), (''b'', 1800, None)]"
    by (simp add: mgr_ab_def req0_def req_b_def)
  have m: "lockfile mgr_ab" "directory mgr_ab" by (simp_all add: mgr_ab_def mgr0_def)
  have e: "ext env_reply1 (ScheduleMaintenance [(''a'', 1800, None), (''b'', 1800, None)]) DirectoryError world0
      = (Inr (), ?w2)"
    by (simp add: ext_def env_reply1_def env0_def world0_def)
  have rp: "schedule_reply env_reply1 [(''a'', 1800, None), (''b'', 1800, None)]
      = [(''a'', Some (DueDatetime aware1))]"
    by (simp add: env_reply1_def)
  have one: "schedule_one env_reply1 ''a'' (Some (DueDatetime aware1)) mgr_ab ?w2 = (Inr (),
        mgr_ab\<lparr>requests := [(''a'', req0\<lparr>next_due := Some aware1,
                  last_scheduled_at := Some \<lparr>wall = 1000000, tzinfo = Some 0\<rparr>\<rparr>), (''b'', req_b)]\<rparr>,
        ?w2\<lparr>ticks := 2, trace := trace ?w2 @ [WriteRequest ''/spool/requests/a'', Chdir ''/spool/requests/a'',
          DumpActivity ''/spool/requests/a'', Chdir ''/''],
          disk := (disk ?w2)(''/spool/requests/a'' \<mapsto> req0\<lparr>next_due := Some aware1,
                  last_scheduled_at := Some \<lparr>wall = 1000000, tzinfo = Some 0\<rparr>\<rparr>)\<rparr>)"
    by (rule schedule_one_a [OF no_failures_reply(1)])
       (simp_all add: env_reply1_def env0_def world0_def)
  show ?thesis
    by (simp add: schedule_def require_lock_def require_directory_def m arg e rp one Let_def)
       (simp add: world0_def)
qed

lemma schedule_eval2:
  "schedule env_reply2 mgr_ab world0 =
     (Inr (),
      mgr_ab\<lparr>requests := [(''a'', req0\<lparr>next_due := Some aware1,
                  last_scheduled_at := Some \<lparr>wall = 1000000, tzinfo = Some 0\<rparr>\<rparr>), (''b'', req_b)]\<rparr>,
      world0\<lparr>trace := [ScheduleMaintenance [(''a'', 1800, None), (''b'', 1800, None)],
          WriteRequest ''/spool/requests/a'', Chdir ''/spool/requests/a'',
          DumpActivity ''/spool/requests/a'', Chdir ''/'',
          EndMaintenance [(''zz'', ''deleted'')]],
        disk := [''/spool/requests/a'' \<mapsto> req0\<lparr>next_due := Some aware1,
                  last_scheduled_at := Some \<lparr>wall = 1000000, tzinfo = Some 0\<rparr>\<rparr>],
        ticks := 2\<rparr>)"
proof -
  let ?w2 = "world0\<lparr>trace := [ScheduleMaintenance [(''a'', 1800, None), (''b'', 1800, None)]]\<rparr>"
  let ?m1 = "mgr_ab\<lparr>requests := [(''a'', req0\<lparr>next_due := Some aware1,
                  last_scheduled_at := Some \<lparr>wall = 1000000, tzinfo = Some 0\<rparr>\<rparr>), (''b'', req_b)]\<rparr>"
  have arg: "map (\<lambda>(reqid, req). (reqid, estimate req, comment req)) (requests mgr_ab)
      = [(''a'', 1800, None), (''b'', 1800, None)]"
    by (simp add: mgr_ab_def req0_def req_b_def)
  have m: "lockfile mgr_ab" "directory mgr_ab" by (simp_all add: mgr_ab_def mgr0_def)
  have e: "ext env_reply2 (ScheduleMaintenance [(''a'', 1800, None), (''b'', 1800, None)]) DirectoryError world0
      = (Inr (), ?w2)"
    by (simp add: ext_def env_reply2_def env0_def world0_def)
  have rp: "schedule_reply env_reply2 [(''a'', 1800, None), (''b'', 1800, None)]
      = [(''a'', Some (DueDatetime aware1)), (''zz'', Some (DueDatetime aware1))]"
    by (simp add: env_reply2_def)
  have one: "schedule_one env_reply2 ''a'' (Some (DueDatetime aware1)) mgr_ab ?w2 = (Inr (), ?m1,
        ?w2\<lparr>ticks := 2, trace := trace ?w2 @ [WriteRequest ''/spool/requests/a'', Chdir ''/spool/requests/a'',
          DumpActivity ''/spool/requests/a'', Chdir ''/''],
          disk := (disk ?w2)(''/spool/requests/a'' \<mapsto> req0\<lparr>next_due := Some aware1,
                  last_scheduled_at := Some \<lparr>wall = 1000000, tzinfo = Some 0\<rparr>\<rparr>)\<rparr>)"
    by (rule schedule_one_a [OF no_failures_reply(2)])
       (simp_all add: env_reply2_def env0_def world0_def)
  have two: "\<And>w. schedule_one env_reply2 ''zz'' (Some (DueDatetime aware1)) ?m1 w = (Inl KeyError, ?m1, w)"
    by (simp add: schedule_one_def)
  have e4: "\<And>w. ext env_reply2 (EndMaintenance [(''zz'', ''deleted'')]) DirectoryError w
      = (Inr (), w\<lparr>trace := trace w @ [EndMaintenance [(''zz'', ''deleted'')]]\<rparr>)"
    by (rule ext_ok [OF no_failures_reply(2)])
  show ?thesis
    by (simp add: schedule_def require_lock_def require_directory_def m arg e rp one two e4 Let_def)
       (simp add: world0_def)
qed

text \<open>
  C2, as the code has it. When \<^verbatim>\<open>schedule()\<close> returns, it has called
  \<^verbatim>\<open>end_maintenance\<close> at most once: not at all when every id of the reply is in
  the collection and comes with a time, and otherwise once, with the result
  \<open>deleted\<close> for exactly the ids of the reply that are not in the collection or
  come without a time. An id that is not in the reply is never reported.
\<close>

theorem C2_schedule_reports_unknown_ids:
  assumes s: "schedule E m w = (Inr (), m', w')"
  shows "\<exists>es. trace w' = trace w @ es
     \<and> (let unknown = map fst (filter (missing m) (schedule_reply E
               (map (\<lambda>(reqid, req). (reqid, estimate req, comment req)) (requests m))))
        in if unknown = [] then end_maintenance_calls es = []
           else (\<exists>ps. end_maintenance_calls es = [ps]
                   \<and> set ps = (\<lambda>key. (key, ''deleted'')) ` set unknown))
     \<and> (\<forall>key ps. key \<notin> fst ` set (schedule_reply E
               (map (\<lambda>(reqid, req). (reqid, estimate req, comment req)) (requests m)))
           \<and> ps \<in> set (end_maintenance_calls es) \<longrightarrow> key \<notin> fst ` set ps)"
proof -
  let ?arg = "map (\<lambda>(reqid, req). (reqid, estimate req, comment req)) (requests m)"
  let ?reply = "schedule_reply E ?arg"
  let ?U = "fst ` {kv \<in> set ?reply. missing m kv}"
  let ?unknown = "map fst (filter (missing m) ?reply)"
  have UU: "set ?unknown = ?U" by auto
  have Usub: "?U \<subseteq> fst ` set ?reply" by auto
  from s have lock: "require_lock m = Inr ()"
    by (auto simp: schedule_def split: sum.splits)
  obtain r1 m1 w1 where d: "require_directory E m w = (r1, m1, w1)"
    by (cases "require_directory E m w")
  from s lock d have r1: "r1 = Inr ()"
    by (cases r1) (auto simp: schedule_def)
  from require_directory_result [OF d] obtain es1 where
    rq: "requests m1 = requests m" and t1: "trace w1 = trace w @ es1"
    and c1: "list_all (\<lambda>e. e = Connect) es1" by blast
  have c1': "end_maintenance_calls es1 = []"
    using c1 by (rule end_maintenance_calls_none) simp
  obtain r2 w2 where e2: "ext E (ScheduleMaintenance ?arg) DirectoryError w1 = (r2, w2)"
    by (cases "ext E (ScheduleMaintenance ?arg) DirectoryError w1")
  then have t2: "trace w2 = trace w1 @ [ScheduleMaintenance ?arg]"
    by (auto simp: ext_def)
  from s lock d r1 e2 rq have r2: "r2 = Inr ()"
    by (cases r2) (auto simp: schedule_def Let_def)
  obtain r3 m3 w3 where l: "schedule_loop E ?reply [] m1 w2 = (r3, m3, w3)"
    by (cases "schedule_loop E ?reply [] m1 w2")
  from s lock d r1 e2 r2 rq l obtain dis where r3: "r3 = Inr dis"
    by (cases r3) (auto simp: schedule_def Let_def)
  from schedule_loop_result [OF l [unfolded r3]]
  have dis: "set dis = fst ` {kv \<in> set ?reply. missing m1 kv}"
    and g3: "grows request_event w2 w3" by auto
  have m1m: "\<And>kv. missing m1 kv = missing m kv"
    using rq by (simp add: missing_def)
  from g3 obtain es3 where t3: "trace w3 = trace w2 @ es3" and c3: "list_all request_event es3"
    by (auto simp: grows_def)
  have c3': "end_maintenance_calls es3 = []"
    using c3 by (rule end_maintenance_calls_none) simp
  show ?thesis
  proof (cases "dis = []")
    case True
    with s lock d r1 e2 r2 rq l r3 have "w' = w3"
      by (auto simp: schedule_def Let_def)
    then have "trace w' = trace w @ (es1 @ [ScheduleMaintenance ?arg] @ es3)"
      using t1 t2 t3 by simp
    moreover have "end_maintenance_calls (es1 @ [ScheduleMaintenance ?arg] @ es3) = []"
      by (simp add: end_maintenance_calls_append c1' c3')
    moreover have "?unknown = []"
    proof -
      have "set ?unknown = {}" using True dis m1m UU by simp
      then show ?thesis by (simp only: set_empty)
    qed
    ultimately show ?thesis
      by (intro exI [of _ "es1 @ [ScheduleMaintenance ?arg] @ es3"]) (simp add: Let_def)
  next
    case False
    let ?ps = "map (\<lambda>key. (key, ''deleted'')) dis"
    obtain r4 w4 where e4: "ext E (EndMaintenance ?ps) DirectoryError w3 = (r4, w4)"
      by (cases "ext E (EndMaintenance ?ps) DirectoryError w3")
    then have t4: "trace w4 = trace w3 @ [EndMaintenance ?ps]"
      by (auto simp: ext_def)
    from s lock d r1 e2 r2 rq l r3 False e4 have "w' = w4"
      by (auto simp: schedule_def Let_def)
    then have "trace w' = trace w @ (es1 @ [ScheduleMaintenance ?arg] @ es3 @ [EndMaintenance ?ps])"
      using t1 t2 t3 t4 by simp
    moreover have "end_maintenance_calls (es1 @ [ScheduleMaintenance ?arg] @ es3 @ [EndMaintenance ?ps]) = [?ps]"
      by (simp add: end_maintenance_calls_append c1' c3')
    moreover have U: "set dis = ?U" using dis m1m by simp
    moreover have "?unknown \<noteq> []"
    proof -
      have "set ?unknown = set dis" using U UU by simp
      with False show ?thesis by (metis set_empty)
    qed
    moreover have "set ?ps = (\<lambda>key. (key, ''deleted'')) ` set ?unknown"
      using U UU by simp
    moreover have "\<forall>key. key \<notin> fst ` set ?reply \<longrightarrow> key \<notin> fst ` set ?ps"
      using U Usub by force
    ultimately show ?thesis
      by (intro exI [of _ "es1 @ [ScheduleMaintenance ?arg] @ es3 @ [EndMaintenance ?ps]"])
         (simp add: Let_def)
  qed
qed

text \<open>
  The witness: the reply names \<open>a\<close>, which is in the collection, and \<open>zz\<close>, which
  is not; \<open>zz\<close> is reported as deleted.
\<close>

theorem C2_schedule_reports_unknown_ids_witness:
  "fst (schedule env_reply2 mgr_ab world0) = Inr ()
   \<and> end_maintenance_calls (trace (snd (snd (schedule env_reply2 mgr_ab world0))))
       = [[(''zz'', ''deleted'')]]"
proof -
  have c: "schedule env_reply2 mgr_ab world0
      = (Inr (), fst (snd (schedule env_reply2 mgr_ab world0)), snd (snd (schedule env_reply2 mgr_ab world0)))"
    by (simp add: schedule_eval2)
  have u: "map fst (filter (missing mgr_ab) (schedule_reply env_reply2
        (map (\<lambda>(reqid, req). (reqid, estimate req, comment req)) (requests mgr_ab)))) = [''zz'']"
    by (simp add: env_reply2_def env0_def missing_def mgr_ab_def)
  from C2_schedule_reports_unknown_ids [OF c] obtain es where
    all: "trace (snd (snd (schedule env_reply2 mgr_ab world0))) = trace world0 @ es
     \<and> (let unknown = map fst (filter (missing mgr_ab) (schedule_reply env_reply2
               (map (\<lambda>(reqid, req). (reqid, estimate req, comment req)) (requests mgr_ab))))
        in if unknown = [] then end_maintenance_calls es = []
           else (\<exists>ps. end_maintenance_calls es = [ps]
                   \<and> set ps = (\<lambda>key. (key, ''deleted'')) ` set unknown))
     \<and> (\<forall>key ps. key \<notin> fst ` set (schedule_reply env_reply2
               (map (\<lambda>(reqid, req). (reqid, estimate req, comment req)) (requests mgr_ab)))
           \<and> ps \<in> set (end_maintenance_calls es) \<longrightarrow> key \<notin> fst ` set ps)" ..
  from all have t: "trace (snd (snd (schedule env_reply2 mgr_ab world0))) = trace world0 @ es"
    by (rule conjunct1)
  from all have l: "let unknown = map fst (filter (missing mgr_ab) (schedule_reply env_reply2
               (map (\<lambda>(reqid, req). (reqid, estimate req, comment req)) (requests mgr_ab))))
        in if unknown = [] then end_maintenance_calls es = []
           else (\<exists>ps. end_maintenance_calls es = [ps]
                   \<and> set ps = (\<lambda>key. (key, ''deleted'')) ` set unknown)"
    by (rule conjunct1 [OF conjunct2])
  from l have "\<exists>ps. end_maintenance_calls es = [ps] \<and> set ps = {(''zz'', ''deleted'')}"
    unfolding u Let_def by simp
  then obtain ps where "end_maintenance_calls es = [ps]" by (elim exE conjE)
  then have n: "length (end_maintenance_calls es) = 1" by simp
  have tw: "trace world0 = []" by (simp add: world0_def)
  have es: "es = [ScheduleMaintenance [(''a'', 1800, None), (''b'', 1800, None)],
          WriteRequest ''/spool/requests/a'', Chdir ''/spool/requests/a'',
          DumpActivity ''/spool/requests/a'', Chdir ''/'',
          EndMaintenance [(''zz'', ''deleted'')]]"
    using t by (simp add: schedule_eval2 tw)
  show ?thesis
    using n by (simp add: schedule_eval2 es)
qed

text \<open>
  C2 as the spec words it: two requests \<open>a\<close> and \<open>b\<close> are in the collection and
  the reply has a due time for \<open>a\<close> only. \<^verbatim>\<open>schedule()\<close> returns without any
  call of \<^verbatim>\<open>end_maintenance\<close>: \<open>b\<close> is not reported, and it stays in the
  collection.
\<close>

theorem C2_absent_from_reply_counterexample:
  "fst (schedule env_reply1 mgr_ab world0) = Inr ()
   \<and> trace (snd (snd (schedule env_reply1 mgr_ab world0)))
       = [ScheduleMaintenance [(''a'', 1800, None), (''b'', 1800, None)],
          WriteRequest ''/spool/requests/a'', Chdir ''/spool/requests/a'',
          DumpActivity ''/spool/requests/a'', Chdir ''/'']
   \<and> end_maintenance_calls (trace (snd (snd (schedule env_reply1 mgr_ab world0)))) = []
   \<and> map fst (requests (fst (snd (schedule env_reply1 mgr_ab world0)))) = [''a'', ''b'']"
  by (simp add: schedule_eval1)

subsection \<open>\<^verbatim>\<open>ReqManager.postpone\<close>\<close>

lemma update_due_None:
  "update_due E DueNone r w = (Inr (opt_dt_ne None (next_due r)), cleared r, w)"
  by (simp add: update_due_def new_due_def lacks_tz_def update_state_def Let_def cleared_def
        retry_check_def)

lemma cleared_frame:
  "dir (cleared r) = dir r" "next_due (cleared r) = None" "reqid (cleared r) = reqid r"
  "estimate (cleared r) = estimate r" "attempts (cleared r) = attempts r"
  by (simp_all add: cleared_def retry_check_def)

lemma postpone_calls_append:
  "postpone_calls (a @ b) = postpone_calls a @ postpone_calls b"
  by (induction a rule: postpone_calls.induct) simp_all

lemma postpone_calls_none:
  "list_all P es \<Longrightarrow> (\<And>ps. \<not> P (PostponeMaintenance ps)) \<Longrightarrow> postpone_calls es = []"
  by (induction es rule: postpone_calls.induct) auto

lemma map_of_put_request:
  "map_of (requests (put_request k r m)) = (map_of (requests m))(k \<mapsto> r)"
  by (simp add: put_request_def update_conv')

lemma postpone_loop_ok:
  assumes nf: "no_failures E"
    and d: "\<forall>(k, r) \<in> set ps. has_dir r"
    and dk: "distinct (map fst ps)"
    and dd: "distinct (map (\<lambda>(k, r). dir r) ps)"
  shows "\<exists>m' w' es. postpone_loop E ps m w = (Inr (), m', w')
     \<and> trace w' = trace w @ es \<and> list_all request_event es
     \<and> (\<forall>(k, r) \<in> set ps. map_of (requests m') k = Some (cleared r)
            \<and> (\<forall>p. dir r = Some p \<longrightarrow> disk w' p = Some (cleared r)))
     \<and> (\<forall>k. k \<notin> fst ` set ps \<longrightarrow> map_of (requests m') k = map_of (requests m) k)
     \<and> (\<forall>p. Some p \<notin> (\<lambda>(k, r). dir r) ` set ps \<longrightarrow> disk w' p = disk w p)"
  using d dk dd
proof (induction ps arbitrary: m w)
  case Nil
  show ?case by simp
next
  case (Cons kr ps)
  obtain k r where kr: "kr = (k, r)" by (cases kr)
  from Cons.prems kr obtain p where p: "dir r = Some p" "p \<noteq> []"
    by (auto simp: has_dir_def split: option.splits)
  let ?r1 = "cleared r"
  let ?m1 = "put_request k ?r1 m"
  let ?w1 = "w\<lparr>trace := trace w @ [WriteRequest p, Chdir p, DumpActivity p, Chdir (cwd w)],
               disk := (disk w)(p \<mapsto> ?r1)\<rparr>"
  have s: "save E ?r1 w = (Inr (), ?w1)"
    using save_ok [OF nf, of ?r1 p w] p by (simp add: cleared_frame)
  have step: "postpone_loop E (kr # ps) m w = postpone_loop E ps ?m1 ?w1"
    by (simp add: kr update_due_None s)
  from Cons.prems kr have pre: "\<forall>(k, r) \<in> set ps. has_dir r" "distinct (map fst ps)"
    "distinct (map (\<lambda>(k, r). dir r) ps)" by auto
  from Cons.IH [OF pre, of ?m1 ?w1] obtain m' w' es where
    l: "postpone_loop E ps ?m1 ?w1 = (Inr (), m', w')"
    and t: "trace w' = trace ?w1 @ es" and e: "list_all request_event es"
    and a: "\<forall>(k, r) \<in> set ps. map_of (requests m') k = Some (cleared r)
            \<and> (\<forall>p. dir r = Some p \<longrightarrow> disk w' p = Some (cleared r))"
    and f: "\<forall>k. k \<notin> fst ` set ps \<longrightarrow> map_of (requests m') k = map_of (requests ?m1) k"
    and g: "\<forall>p. Some p \<notin> (\<lambda>(k, r). dir r) ` set ps \<longrightarrow> disk w' p = disk ?w1 p"
    by blast
  from Cons.prems kr have knew: "k \<notin> fst ` set ps" and pnew: "Some p \<notin> (\<lambda>(k, r). dir r) ` set ps"
    using p by (auto simp: image_iff)
  have hd1: "map_of (requests m') k = Some ?r1"
    using f knew by (simp add: map_of_put_request)
  have hd2: "disk w' p = Some ?r1"
    using g pnew by simp
  have f': "\<forall>k'. k' \<notin> fst ` set (kr # ps) \<longrightarrow> map_of (requests m') k' = map_of (requests m) k'"
    using f kr by (simp add: map_of_put_request)
  have g': "\<forall>q. Some q \<notin> (\<lambda>(k, r). dir r) ` set (kr # ps) \<longrightarrow> disk w' q = disk w q"
    using g kr p by auto
  have t': "trace w' = trace w @ ([WriteRequest p, Chdir p, DumpActivity p, Chdir (cwd w)] @ es)"
    using t by simp
  have e': "list_all request_event ([WriteRequest p, Chdir p, DumpActivity p, Chdir (cwd w)] @ es)"
    using e by simp
  have a': "\<forall>(k, r) \<in> set (kr # ps). map_of (requests m') k = Some (cleared r)
            \<and> (\<forall>p. dir r = Some p \<longrightarrow> disk w' p = Some (cleared r))"
    using a hd1 hd2 kr p by auto
  have full: "postpone_loop E (kr # ps) m w = (Inr (), m', w')"
    using step l by simp
  show ?case
    by (rule exI [of _ m'], rule exI [of _ w'],
        rule exI [of _ "[WriteRequest p, Chdir p, DumpActivity p, Chdir (cwd w)] @ es"])
       (intro conjI full t' e' a' f' g')
qed


lemma require_directory_ok:
  assumes "no_failures E"
  shows "\<exists>m1 w1 es. require_directory E m w = (Inr (), m1, w1)
     \<and> requests m1 = requests m \<and> requestsdir m1 = requestsdir m \<and> lockfile m1 = lockfile m
     \<and> config m1 = config m
     \<and> trace w1 = trace w @ es \<and> list_all (\<lambda>e. e = Connect) es \<and> disk w1 = disk w"
  using assms
  by (auto simp: require_directory_def ext_def no_failures_def)

lemma wf_manager_lookup:
  assumes "wf_manager m" "(k, r) \<in> set (requests m)"
  shows "map_of (requests m) k = Some r" "reqid r = k" "dir r = Some (mgr_dir m r)" "has_dir r"
  using assms by (auto simp: wf_manager_def has_dir_def mgr_dir_def)

lemma wf_manager_dirs:
  assumes "wf_manager m" "set ps \<subseteq> set (requests m)" "distinct (map fst ps)"
  shows "distinct (map (\<lambda>(k, r). dir r) ps)"
proof -
  have "dir r = Some (requestsdir m @ ''/'' @ k)" if "(k, r) \<in> set ps" for k r
  proof -
    from that assms(2) have "(k, r) \<in> set (requests m)" by blast
    with assms(1) show ?thesis by (auto simp: wf_manager_def mgr_dir_def)
  qed
  then have "map (\<lambda>(k, r). dir r) ps = map (\<lambda>k. Some (requestsdir m @ ''/'' @ k)) (map fst ps)"
    by auto
  moreover have "inj_on (\<lambda>k. Some (requestsdir m @ ''/'' @ k)) (set (map fst ps))"
    by (simp add: inj_on_def)
  ultimately show ?thesis
    using assms(3) by (simp only: distinct_map)
qed

text \<open>
  C7. With the lock held, a well-formed collection and nothing outside failing,
  \<^verbatim>\<open>postpone()\<close> returns; it calls \<^verbatim>\<open>postpone_maintenance\<close> once, with
  twice the estimate for exactly the requests in state \<^verbatim>\<open>postpone\<close> (and not at
  all when there is none); afterwards each of these requests is in the collection with
  no due time, and the file in its directory holds it so; every other request is
  unchanged.
\<close>

theorem C7_postpone:
  assumes lk: "lockfile m" and nf: "no_failures E" and wf: "wf_manager m"
  shows "\<exists>m' w' es. postpone E m w = (Inr (), m', w') \<and> trace w' = trace w @ es
     \<and> postpone_calls es =
          (let postponed = filter (\<lambda>(key, r). state r = Postpone) (requests m)
           in if postponed = [] then []
              else [map (\<lambda>(key, req). (reqid req, 2 * estimate req)) postponed])
     \<and> (\<forall>(key, r) \<in> set (requests m).
           if state r = Postpone
           then map_of (requests m') key = Some (cleared r) \<and> next_due (cleared r) = None
                \<and> disk w' (mgr_dir m r) = Some (cleared r)
           else map_of (requests m') key = Some r)"
proof -
  let ?ps = "filter (\<lambda>(key, r). state r = Postpone) (requests m)"
  let ?arg = "map (\<lambda>(key, req). (reqid req, 2 * estimate req)) ?ps"
  have lock: "require_lock m = Inr ()" using lk by (simp add: require_lock_def)
  from require_directory_ok [OF nf, of m w] obtain m1 w1 es1 where
    rd: "require_directory E m w = (Inr (), m1, w1)" and rq: "requests m1 = requests m"
    and t1: "trace w1 = trace w @ es1" and c1: "list_all (\<lambda>e. e = Connect) es1"
    by blast
  have p1: "postpone_calls es1 = []"
    using c1 by (rule postpone_calls_none) simp
  have others: "map_of (requests m) key = Some r" if "(key, r) \<in> set (requests m)" for key r
    using wf_manager_lookup(1) [OF wf that] .
  show ?thesis
  proof (cases "?ps = []")
    case True
    have res: "postpone E m w = (Inr (), m1, w1)"
      using lock rd rq True by (simp add: postpone_def Let_def)
    have none: "\<forall>(key, r) \<in> set (requests m). state r \<noteq> Postpone"
      using True by (auto simp: filter_empty_conv)
    have fin: "\<forall>(key, r) \<in> set (requests m).
           if state r = Postpone
           then map_of (requests m1) key = Some (cleared r) \<and> next_due (cleared r) = None
                \<and> disk w1 (mgr_dir m r) = Some (cleared r)
           else map_of (requests m1) key = Some r"
      using none others rq by auto
    have pc: "postpone_calls es1 =
          (let postponed = ?ps in if postponed = [] then []
              else [map (\<lambda>(key, req). (reqid req, 2 * estimate req)) postponed])"
      using True p1 by simp
    show ?thesis
      by (rule exI [of _ m1], rule exI [of _ w1], rule exI [of _ es1]) (intro conjI res t1 pc fin)
  next
    case False
    let ?w2 = "w1\<lparr>trace := trace w1 @ [PostponeMaintenance ?arg]\<rparr>"
    have e2: "ext E (PostponeMaintenance ?arg) DirectoryError w1 = (Inr (), ?w2)"
      by (rule ext_ok [OF nf])
    have sub: "set ?ps \<subseteq> set (requests m)" by auto
    have dk: "distinct (map fst ?ps)"
      using wf by (simp add: wf_manager_def distinct_map_filter)
    have hd: "\<forall>(k, r) \<in> set ?ps. has_dir r"
      using wf_manager_lookup(4) [OF wf] by auto
    have dd: "distinct (map (\<lambda>(k, r). dir r) ?ps)"
      using wf_manager_dirs [OF wf sub dk] .
    from postpone_loop_ok [OF nf hd dk dd, of m1 ?w2] obtain m' w' es where
      l: "postpone_loop E ?ps m1 ?w2 = (Inr (), m', w')"
      and t: "trace w' = trace ?w2 @ es" and e: "list_all request_event es"
      and a: "\<forall>(k, r) \<in> set ?ps. map_of (requests m') k = Some (cleared r)
            \<and> (\<forall>p. dir r = Some p \<longrightarrow> disk w' p = Some (cleared r))"
      and f: "\<forall>k. k \<notin> fst ` set ?ps \<longrightarrow> map_of (requests m') k = map_of (requests m1) k"
      by blast
    have res: "postpone E m w = (Inr (), m', w')"
      using lock rd rq False e2 l by (simp add: postpone_def Let_def)
    have p3: "postpone_calls es = []"
      using e by (rule postpone_calls_none) simp
    have t': "trace w' = trace w @ (es1 @ [PostponeMaintenance ?arg] @ es)"
      using t t1 by simp
    have pc: "postpone_calls (es1 @ [PostponeMaintenance ?arg] @ es) =
          (let postponed = ?ps in if postponed = [] then []
              else [map (\<lambda>(key, req). (reqid req, 2 * estimate req)) postponed])"
      using False by (simp add: postpone_calls_append p1 p3)
    have fin: "\<forall>(key, r) \<in> set (requests m).
           if state r = Postpone
           then map_of (requests m') key = Some (cleared r) \<and> next_due (cleared r) = None
                \<and> disk w' (mgr_dir m r) = Some (cleared r)
           else map_of (requests m') key = Some r"
    proof (intro ballI, clarify)
      fix key r assume kr: "(key, r) \<in> set (requests m)"
      show "if state r = Postpone
           then map_of (requests m') key = Some (cleared r) \<and> next_due (cleared r) = None
                \<and> disk w' (mgr_dir m r) = Some (cleared r)
           else map_of (requests m') key = Some r"
      proof (cases "state r = Postpone")
        case True
        then have "(key, r) \<in> set ?ps" using kr by simp
        with a have "map_of (requests m') key = Some (cleared r)"
          and "\<forall>p. dir r = Some p \<longrightarrow> disk w' p = Some (cleared r)" by auto
        then show ?thesis
          using True wf_manager_lookup(3) [OF wf kr] by (simp add: cleared_frame)
      next
        case np: False
        have "key \<notin> fst ` set ?ps"
        proof
          assume "key \<in> fst ` set ?ps"
          then obtain r2 where r2: "(key, r2) \<in> set (requests m)" "state r2 = Postpone" by auto
          from others [OF r2(1)] others [OF kr] have "r2 = r" by simp
          with r2 np show False by simp
        qed
        with f rq others [OF kr] np show ?thesis by simp
      qed
    qed
    show ?thesis
      by (rule exI [of _ m'], rule exI [of _ w'],
          rule exI [of _ "es1 @ [PostponeMaintenance ?arg] @ es"]) (intro conjI res t' pc fin)
  qed
qed

text \<open>
  The witness: request \<open>a\<close> with an estimate of 1800 seconds in state
  \<^verbatim>\<open>postpone\<close>, request \<open>b\<close> pending.
\<close>

theorem C7_postpone_witness:
  "lockfile mgr_p \<and> no_failures env0 \<and> wf_manager mgr_p
   \<and> fst (postpone env0 mgr_p world0) = Inr ()
   \<and> postpone_calls (trace (snd (snd (postpone env0 mgr_p world0)))) = [[(''a'', 3600)]]
   \<and> map_of (requests (fst (snd (postpone env0 mgr_p world0)))) ''a''
       = Some (req0\<lparr>state := Postpone, next_due := None\<rparr>)
   \<and> disk (snd (snd (postpone env0 mgr_p world0))) ''/spool/requests/a''
       = Some (req0\<lparr>state := Postpone, next_due := None\<rparr>)
   \<and> map_of (requests (fst (snd (postpone env0 mgr_p world0)))) ''b'' = Some req_b"
proof -
  let ?a = "req0\<lparr>state := Postpone, next_due := Some aware1\<rparr>"
  have h1: "lockfile mgr_p" by (simp add: mgr_p_def mgr0_def)
  have h2: "no_failures env0" by (rule no_failures_env0)
  have h3: "wf_manager mgr_p"
    by (simp add: wf_manager_def mgr_p_def mgr0_def mgr_dir_def req0_def req_b_def)
  have rq: "requests mgr_p = [(''a'', ?a), (''b'', req_b)]" by (simp add: mgr_p_def)
  have st: "state ?a = Postpone" "state req_b \<noteq> Postpone" "reqid ?a = ''a''" "estimate ?a = 1800"
    by (simp_all add: req0_def req_b_def)
  have cl: "cleared ?a = req0\<lparr>state := Postpone, next_due := None\<rparr>"
    by (simp add: cleared_def retry_check_def MAX_RETRIES_def req0_def)
  have dr: "mgr_dir mgr_p ?a = ''/spool/requests/a''"
    by (simp add: mgr_dir_def mgr_p_def mgr0_def req0_def)
  have tw: "trace world0 = []" by (simp add: world0_def)
  from C7_postpone [OF h1 h2 h3, of world0] obtain m' w' es where
    r: "postpone env0 mgr_p world0 = (Inr (), m', w')" and t: "trace w' = trace world0 @ es"
    and c: "postpone_calls es =
          (let postponed = filter (\<lambda>(key, r). state r = Postpone) (requests mgr_p)
           in if postponed = [] then []
              else [map (\<lambda>(key, req). (reqid req, 2 * estimate req)) postponed])"
    and a: "\<forall>(key, r) \<in> set (requests mgr_p).
           if state r = Postpone
           then map_of (requests m') key = Some (cleared r) \<and> next_due (cleared r) = None
                \<and> disk w' (mgr_dir mgr_p r) = Some (cleared r)
           else map_of (requests m') key = Some r"
    by blast
  from c have c': "postpone_calls es = [[(''a'', 3600)]]"
    by (simp add: rq st Let_def)
  from a have a': "map_of (requests m') ''a'' = Some (cleared ?a)"
    "disk w' (mgr_dir mgr_p ?a) = Some (cleared ?a)" "map_of (requests m') ''b'' = Some req_b"
    by (simp_all add: rq st)
  show ?thesis
    using h1 h2 h3 c' a' by (simp add: r t tw cl dr)
qed

subsection \<open>\<^verbatim>\<open>ReqManager.runnable\<close>\<close>

lemma lt_aware:
  assumes "aware (next_due a)" "aware (next_due b)"
  shows "lt b a = Inr (\<not> due_order a b)"
  using assms
  by (auto simp: lt_def due_order_def dt_lt_def aware_def instant_def split: option.splits)

lemma due_order_total: "due_order a b \<or> due_order b a"
  by (auto simp: due_order_def split: option.splits)

lemma due_order_trans: "due_order a b \<Longrightarrow> due_order b c \<Longrightarrow> due_order a c"
  by (auto simp: due_order_def split: option.splits)

lemma insort_lt_sorted:
  assumes "aware (next_due (snd x))" "all_aware ys" "sorted_wrt (\<lambda>a b. due_order (snd a) (snd b)) ys"
  shows "\<exists>zs. insort_lt x ys = Inr zs \<and> mset zs = mset (x # ys)
           \<and> sorted_wrt (\<lambda>a b. due_order (snd a) (snd b)) zs"
  using assms(2,3)
proof (induction ys)
  case Nil
  show ?case by simp
next
  case (Cons y ys)
  from Cons.prems have ay: "aware (next_due (snd y))" and ays: "all_aware ys"
    and sy: "\<forall>z \<in> set ys. due_order (snd y) (snd z)"
    and sys: "sorted_wrt (\<lambda>a b. due_order (snd a) (snd b)) ys"
    by (auto simp: all_aware_def)
  have l: "lt (snd x) (snd y) = Inr (\<not> due_order (snd y) (snd x))"
    using lt_aware [OF ay assms(1)] .
  show ?case
  proof (cases "due_order (snd y) (snd x)")
    case True
    from Cons.IH [OF ays sys] obtain zs where z: "insort_lt x ys = Inr zs"
      "mset zs = mset (x # ys)" "sorted_wrt (\<lambda>a b. due_order (snd a) (snd b)) zs" by blast
    have "set zs = insert x (set ys)" using z(2) by (metis mset_eq_setD list.simps(15))
    with sy True have "\<forall>z \<in> set zs. due_order (snd y) (snd z)" by auto
    with z show ?thesis using l True by simp
  next
    case False
    then have xy: "due_order (snd x) (snd y)" using due_order_total by blast
    have "\<forall>z \<in> set ys. due_order (snd x) (snd z)"
      using sy xy due_order_trans by blast
    with xy Cons.prems(2) show ?thesis using l False by simp
  qed
qed

lemma sorted_lt_sorted:
  assumes "all_aware xs" "all_aware acc" "sorted_wrt (\<lambda>a b. due_order (snd a) (snd b)) acc"
  shows "\<exists>s. sorted_lt acc xs = Inr s \<and> mset s = mset acc + mset xs
           \<and> sorted_wrt (\<lambda>a b. due_order (snd a) (snd b)) s"
  using assms
proof (induction xs arbitrary: acc)
  case Nil
  then show ?case by simp
next
  case (Cons x xs)
  from Cons.prems have ax: "aware (next_due (snd x))" and axs: "all_aware xs"
    by (auto simp: all_aware_def)
  from insort_lt_sorted [OF ax Cons.prems(2,3)] obtain zs where
    z: "insort_lt x acc = Inr zs" "mset zs = mset (x # acc)"
       "sorted_wrt (\<lambda>a b. due_order (snd a) (snd b)) zs" by blast
  have "set zs = insert x (set acc)" using z(2) by (metis mset_eq_setD list.simps(15))
  then have az: "all_aware zs" using ax Cons.prems(2) by (auto simp: all_aware_def list_all_iff)
  from Cons.IH [OF axs az z(3)] z(1,2) show ?case by auto
qed


lemma update_state_aware:
  assumes "aware (next_due r)"
  shows "\<exists>r1 w1. update_state E r w = (Inr (state r1), r1, w1) \<and> next_due r1 = next_due r"
  using update_state_cases [OF assms, of E w] by (auto simp: retry_check_frame)

lemma refresh_keys: "map fst (fst (refresh E rs w)) = map fst rs"
proof (induction rs arbitrary: w)
  case Nil
  show ?case by simp
next
  case (Cons kr rs)
  obtain k r where kr: "kr = (k, r)" by (cases kr)
  obtain res r1 w1 where u: "update_state E r w = (res, r1, w1)" by (cases "update_state E r w")
  obtain R w' where rf: "refresh E rs w1 = (R, w')" by (cases "refresh E rs w1")
  from Cons.IH [of w1] rf show ?case by (simp add: kr u)
qed

lemma refresh_aware: "all_aware rs \<Longrightarrow> all_aware (fst (refresh E rs w))"
proof (induction rs arbitrary: w)
  case Nil
  then show ?case by simp
next
  case (Cons kr rs)
  obtain k r where kr: "kr = (k, r)" by (cases kr)
  from Cons.prems kr have a: "aware (next_due r)" and as: "all_aware rs"
    by (auto simp: all_aware_def)
  from update_state_aware [OF a, of E w] obtain r1 w1 where
    u: "update_state E r w = (Inr (state r1), r1, w1)" "next_due r1 = next_due r" by blast
  from Cons.IH [OF as, of w1] a u show ?case
    by (auto simp: kr all_aware_def split: prod.splits)
qed

lemma runnable_loop_refresh:
  assumes "all_aware todo"
  shows "runnable_loop E todo y c m w =
     (case refresh E todo w of (R, w') \<Rightarrow>
        (case sorted_lt [] (c @ filter is_dueish R) of
           Inl x \<Rightarrow> (Inl x, fold (\<lambda>(k, r). put_request k r) R m, w')
         | Inr s \<Rightarrow> (Inr (y @ filter is_running R @ s), fold (\<lambda>(k, r). put_request k r) R m, w')))"
  using assms
proof (induction todo arbitrary: y c m w)
  case Nil
  show ?case by (simp split: sum.splits)
next
  case (Cons kr todo)
  obtain k r where kr: "kr = (k, r)" by (cases kr)
  from Cons.prems kr have a: "aware (next_due r)" and as: "all_aware todo"
    by (auto simp: all_aware_def)
  from update_state_aware [OF a, of E w] obtain r1 w1 where
    u: "update_state E r w = (Inr (state r1), r1, w1)" by blast
  obtain R w' where rf: "refresh E todo w1 = (R, w')" by (cases "refresh E todo w1")
  note ih = Cons.IH [OF as, of _ _ "put_request k r1 m" w1, unfolded rf, simplified]
  have ir: "is_running (k, r1) = (state r1 = Running)"
    "is_dueish (k, r1) = (state r1 = Due \<or> state r1 = Tempfail)"
    by (simp_all add: is_running_def is_dueish_def)
  show ?case
    by (simp add: kr u rf ih ir split: sum.splits)
qed

lemma fold_put_request:
  assumes "map fst R = map fst xs" "requests m = pre @ xs" "distinct (map fst (pre @ xs))"
  shows "fold (\<lambda>(k, r). put_request k r) R m = m\<lparr>requests := pre @ R\<rparr>"
  using assms
proof (induction xs arbitrary: R pre m)
  case Nil
  then show ?case by simp
next
  case (Cons x xs)
  from Cons.prems(1) obtain y R' where R: "R = y # R'" "fst y = fst x" "map fst R' = map fst xs"
    by (cases R) auto
  have nk: "fst y \<notin> fst ` set pre" using Cons.prems(3) R(2) by auto
  have up: "AList.update (fst y) (snd y) (pre @ x # xs) = pre @ y # xs"
    using nk R(2) by (induction pre) (auto simp: prod_eq_iff)
  have m1: "requests (put_request (fst y) (snd y) m) = (pre @ [y]) @ xs"
    using Cons.prems(2) up by (simp add: put_request_def)
  have d1: "distinct (map fst ((pre @ [y]) @ xs))"
    using Cons.prems(3) R(2) by simp
  from Cons.IH [OF R(3) m1 d1]
  show ?case by (simp add: R(1) case_prod_beta put_request_def)
qed


lemma not_before_due_order:
  assumes "aware (next_due (snd a))" "aware (next_due (snd b))"
  shows "not_before a b = due_order (snd a) (snd b)"
  using lt_aware [OF assms] by (simp add: not_before_def)

text \<open>
  C5. For a collection with distinct ids whose due times all carry a time zone,
  \<^verbatim>\<open>runnable()\<close> run to its end has called \<^verbatim>\<open>update_state()\<close> on every
  request, in order; it yields the requests that are then \<^verbatim>\<open>running\<close> first, in
  the order of the collection, and after them exactly the requests that are then
  \<^verbatim>\<open>due\<close> or \<^verbatim>\<open>tempfail\<close>, sorted: no request is less than one before it,
  which means earlier due times first and requests without a due time last, by id.
\<close>

theorem C5_runnable:
  assumes aw: "all_aware (requests m)" and dk: "distinct (map fst (requests m))"
  shows "\<exists>s. runnable E m w =
           (Inr (filter is_running (fst (refresh E (requests m) w)) @ s),
            m\<lparr>requests := fst (refresh E (requests m) w)\<rparr>, snd (refresh E (requests m) w))
     \<and> mset s = mset (filter is_dueish (fst (refresh E (requests m) w)))
     \<and> sorted_wrt not_before s
     \<and> sorted_wrt (\<lambda>a b. due_order (snd a) (snd b)) s"
proof -
  obtain R w' where rf: "refresh E (requests m) w = (R, w')" by (cases "refresh E (requests m) w")
  have keys: "map fst R = map fst (requests m)" using refresh_keys [of E "requests m" w] rf by simp
  have aR: "all_aware R" using refresh_aware [OF aw, of E w] rf by simp
  then have aD: "all_aware (filter is_dueish R)" by (simp add: all_aware_def list_all_iff)
  from sorted_lt_sorted [OF aD, of "[]"] obtain s where
    s: "sorted_lt [] (filter is_dueish R) = Inr s" "mset s = mset (filter is_dueish R)"
       "sorted_wrt (\<lambda>a b. due_order (snd a) (snd b)) s"
    by (auto simp: all_aware_def)
  have "set s = set (filter is_dueish R)" using s(2) by (rule mset_eq_setD)
  then have as: "\<forall>a \<in> set s. aware (next_due (snd a))"
    using aD by (auto simp: all_aware_def list_all_iff)
  have nb: "sorted_wrt not_before s"
  proof (rule sorted_wrt_mono_rel [OF _ s(3)])
    fix a b assume "a \<in> set s" "b \<in> set s" "due_order (snd a) (snd b)"
    with as show "not_before a b" by (simp add: not_before_due_order)
  qed
  have fp: "fold (\<lambda>(k, r). put_request k r) R m = m\<lparr>requests := R\<rparr>"
    using fold_put_request [of R "requests m" m "[]"] keys dk by simp
  have "runnable E m w = (Inr (filter is_running R @ s), m\<lparr>requests := R\<rparr>, w')"
    by (simp add: runnable_def runnable_loop_refresh [OF aw] rf s(1) fp)
  with s(2,3) nb rf show ?thesis by auto
qed

lemma refresh_eval:
  "refresh env0 (requests mgr_r) world0 =
     ([(''r'', mk ''r'' Running (Some aware1)), (''l'', mk ''l'' Due (Some past1)),
       (''t'', mk ''t'' Tempfail None), (''e'', mk ''e'' Due (Some past2)),
       (''p'', mk ''p'' Pending (Some aware2))], world0\<lparr>ticks := 3\<rparr>)"
  by (simp add: mgr_r_def mk_def update_state_def utcnow_def dt_ge_def retry_check_def
       MAX_RETRIES_def env0_def world0_def req0_def aware1_def aware2_def past1_def past2_def)


lemma mgr_r_ok: "all_aware (requests mgr_r)" "distinct (map fst (requests mgr_r))"
  by (simp_all add: all_aware_def mgr_r_def mk_def aware_def aware1_def aware2_def past1_def past2_def)

lemma dueish_eval:
  "filter is_dueish [(''r'', mk ''r'' Running (Some aware1)), (''l'', mk ''l'' Due (Some past1)),
       (''t'', mk ''t'' Tempfail None), (''e'', mk ''e'' Due (Some past2)),
       (''p'', mk ''p'' Pending (Some aware2))] =
     [(''l'', mk ''l'' Due (Some past1)), (''t'', mk ''t'' Tempfail None), (''e'', mk ''e'' Due (Some past2))]"
  "filter is_running [(''r'', mk ''r'' Running (Some aware1)), (''l'', mk ''l'' Due (Some past1)),
       (''t'', mk ''t'' Tempfail None), (''e'', mk ''e'' Due (Some past2)),
       (''p'', mk ''p'' Pending (Some aware2))] = [(''r'', mk ''r'' Running (Some aware1))]"
  by (simp_all add: is_dueish_def is_running_def mk_def)

lemma sorted_eval:
  "sorted_lt [] [(''l'', mk ''l'' Due (Some past1)), (''t'', mk ''t'' Tempfail None), (''e'', mk ''e'' Due (Some past2))]
     = Inr [(''e'', mk ''e'' Due (Some past2)), (''l'', mk ''l'' Due (Some past1)), (''t'', mk ''t'' Tempfail None)]"
  by (simp add: lt_def dt_lt_def mk_def past1_def past2_def)

text \<open>
  The witness: the running request comes first, then the two due requests by due time,
  then the request in tempfail, which has no due time; the pending request is left out.
\<close>

theorem C5_runnable_witness:
  "all_aware (requests mgr_r) \<and> distinct (map fst (requests mgr_r))
   \<and> fst (runnable env0 mgr_r world0)
       = Inr [(''r'', mk ''r'' Running (Some aware1)), (''e'', mk ''e'' Due (Some past2)),
              (''l'', mk ''l'' Due (Some past1)), (''t'', mk ''t'' Tempfail None)]
   \<and> (\<exists>s. fst (runnable env0 mgr_r world0) = Inr ((''r'', mk ''r'' Running (Some aware1)) # s)
          \<and> sorted_wrt not_before s)"
proof -
  from C5_runnable [OF mgr_r_ok, of env0 world0] obtain s where
    r: "runnable env0 mgr_r world0 =
           (Inr (filter is_running (fst (refresh env0 (requests mgr_r) world0)) @ s),
            mgr_r\<lparr>requests := fst (refresh env0 (requests mgr_r) world0)\<rparr>,
            snd (refresh env0 (requests mgr_r) world0))"
    and n: "sorted_wrt not_before s"
    by blast
  have "fst (runnable env0 mgr_r world0) = Inr ((''r'', mk ''r'' Running (Some aware1)) # s)"
    using r unfolding refresh_eval fst_conv dueish_eval by simp
  with n have ex: "\<exists>s. fst (runnable env0 mgr_r world0) = Inr ((''r'', mk ''r'' Running (Some aware1)) # s)
          \<and> sorted_wrt not_before s"
    by blast
  have ev: "fst (runnable env0 mgr_r world0)
       = Inr [(''r'', mk ''r'' Running (Some aware1)), (''e'', mk ''e'' Due (Some past2)),
              (''l'', mk ''l'' Due (Some past1)), (''t'', mk ''t'' Tempfail None)]"
    by (simp add: runnable_def runnable_loop_refresh [OF mgr_r_ok(1)] refresh_eval
          dueish_eval sorted_eval del: sorted_lt.simps insort_lt.simps filter.simps)
  from mgr_r_ok ex ev show ?thesis by (intro conjI)
qed

subsection \<open>\<^verbatim>\<open>ReqManager.execute\<close>\<close>

text \<open>
  A hook command of white space only is skipped, also when the white space is a
  no-break space or a next-line character; a real command is run.
\<close>

lemma blank_examples:
  "blank []" "blank '' ''" "blank [CHR 0xA0]" "blank [CHR 0x85]" "blank [CHR 0x09, CHR 0xA0, CHR 0x0A]"
  "\<not> blank ''systemctl stop demo''"
  by (simp_all add: blank_def is_space_def)

lemma run_commands_skips_blank:
  "blank command \<Longrightarrow> run_commands E ((name, command) # rest) w = run_commands E rest w"
  by simp

lemma request_event_quiet: "request_event e \<Longrightarrow> quiet e"
  by (cases e) auto

lemma grows_utcnow: "utcnow E w = (now, w') \<Longrightarrow> grows P w w'"
  by (auto simp: utcnow_def grows_same)

lemma grows_record_attempt: "record_attempt E act a w = (res, a', w') \<Longrightarrow> grows P w w'"
  by (auto simp: record_attempt_def utcnow_def Let_def grows_same split: if_splits sum.splits)

lemma grows_run_and_record:
  assumes "run_and_record E ra w = (res, ra', w')"
  shows "grows request_event w w'"
proof -
  obtain r a where ra: "ra = (r, a)" by (cases ra)
  let ?w1 = "w\<lparr>trace := trace w @ [RunActivity (reqid r)]\<rparr>"
  have g1: "grows request_event w ?w1" by (simp add: grows_def)
  obtain act exc where run: "run_activity E (trace w) r = (act, exc)"
    by (cases "run_activity E (trace w) r")
  show ?thesis
  proof (cases exc)
    case (Some msg)
    with assms ra run have "w' = ?w1" by (simp add: run_and_record_def Let_def)
    with g1 show ?thesis by simp
  next
    case None
    obtain r2 a2 w2 where rec: "record_attempt E act a ?w1 = (r2, a2, w2)"
      by (cases "record_attempt E act a ?w1")
    have "grows request_event ?w1 w2" using grows_record_attempt [OF rec] .
    moreover have "w' = w2"
      using assms ra run None rec by (cases r2) (simp_all add: run_and_record_def Let_def)
    ultimately show ?thesis using g1 by (blast intro: grows_trans)
  qed
qed

lemma grows_execute_try:
  assumes "execute_try E ev ra w = (res, ra', w')"
  shows "grows request_event w w'"
proof -
  obtain r a where ra: "ra = (r, a)" by (cases ra)
  let ?r1 = "r\<lparr>state := Running\<rparr>"
  obtain s1 w1 where s: "save E ?r1 w = (s1, w1)" by (cases "save E ?r1 w")
  have g1: "grows request_event w w1" using grows_save [OF s] .
  show ?thesis
  proof (cases s1)
    case (Inl x)
    with assms ra s have "w' = w1" by (simp add: execute_try_def Let_def)
    with g1 show ?thesis by simp
  next
    case (Inr u)
    show ?thesis
    proof (cases "dir ?r1")
      case None
      with assms ra s Inr have "w' = w1" by (simp add: execute_try_def Let_def)
      with g1 show ?thesis by simp
    next
      case (Some d)
      obtain r2 ra2 w2 where c: "with_cd E d (run_and_record E) (?r1, a) w1 = (r2, ra2, w2)"
        by (cases "with_cd E d (run_and_record E) (?r1, a) w1")
      have "grows request_event w1 w2"
        by (rule grows_with_cd [OF _ _ c]) (auto intro: grows_run_and_record)
      moreover have "w' = w2"
        using assms ra s Inr Some c
        by (cases r2; cases ra2) (auto simp: execute_try_def Let_def)
      ultimately show ?thesis using g1 by (blast intro: grows_trans)
    qed
  qed
qed

lemma grows_execute:
  assumes "execute E ev r w = (res, r', w')"
  shows "grows request_event w w'"
proof -
  obtain a w0 where at: "Attempt E w = (a, w0)" by (cases "Attempt E w")
  then have g0: "grows request_event w w0"
    by (auto simp: Attempt_def utcnow_def grows_same)
  obtain r1 ra1 w1 where t: "execute_try E ev (r, a) w0 = (r1, ra1, w1)"
    by (cases "execute_try E ev (r, a) w0")
  have g1: "grows request_event w0 w1" using grows_execute_try [OF t] .
  obtain q1 a1 where ra1: "ra1 = (q1, a1)" by (cases ra1)
  let ?r2 = "case r1 of Inl x \<Rightarrow> q1\<lparr>state := Error\<rparr> | Inr u \<Rightarrow> q1"
  obtain s2 w2 where s: "save E ?r2 w1 = (s2, w2)" by (cases "save E ?r2 w1")
  have g2: "grows request_event w1 w2" using grows_save [OF s] .
  have "w' = w2" using assms at t ra1 s by (simp add: execute_def Let_def)
  with g0 g1 g2 show ?thesis by (blast intro: grows_trans)
qed


lemma execute_loop_frame:
  assumes "execute_loop E ev rr rb m w = (rb', m', w')" "k \<notin> fst ` set rr"
  shows "map_of (requests m') k = map_of (requests m) k"
  using assms
proof (induction rr arbitrary: rb m w)
  case Nil
  then show ?case by simp
next
  case (Cons kr rr)
  obtain key r0 where kr: "kr = (key, r0)" by (cases kr)
  let ?req = "case map_of (requests m) key of None \<Rightarrow> r0 | Some r \<Rightarrow> r"
  obtain res req1 w1 where e: "execute E ev ?req w = (res, req1, w1)"
    by (cases "execute E ev ?req w")
  let ?rb1 = "if state req1 = Success then List.insert (reboot_needed (activity req1)) rb else rb"
  have l: "execute_loop E ev rr ?rb1 (put_request key req1 m) w1 = (rb', m', w')"
    using Cons.prems(1) kr e by (simp add: Let_def)
  from Cons.prems(2) kr have k: "k \<noteq> key" "k \<notin> fst ` set rr" by auto
  from Cons.IH [OF l k(2)] k(1) show ?case by (simp add: map_of_put_request)
qed

lemma execute_loop_result:
  assumes "execute_loop E ev rr rb m w = (rb', m', w')" "distinct (map fst rr)"
  shows "set rb' = set rb \<union> {reboot_needed (activity r') | k r'.
            k \<in> fst ` set rr \<and> map_of (requests m') k = Some r' \<and> state r' = Success}
         \<and> grows request_event w w'"
  using assms
proof (induction rr arbitrary: rb m w)
  case Nil
  then show ?case by (simp add: grows_refl)
next
  case (Cons kr rr)
  obtain key r0 where kr: "kr = (key, r0)" by (cases kr)
  let ?req = "case map_of (requests m) key of None \<Rightarrow> r0 | Some r \<Rightarrow> r"
  obtain res req1 w1 where e: "execute E ev ?req w = (res, req1, w1)"
    by (cases "execute E ev ?req w")
  let ?rb1 = "if state req1 = Success then List.insert (reboot_needed (activity req1)) rb else rb"
  let ?m1 = "put_request key req1 m"
  have l: "execute_loop E ev rr ?rb1 ?m1 w1 = (rb', m', w')"
    using Cons.prems(1) kr e by (simp add: Let_def)
  from Cons.prems(2) kr have d: "key \<notin> fst ` set rr" "distinct (map fst rr)" by auto
  have here: "map_of (requests m') key = Some req1"
    using execute_loop_frame [OF l d(1)] by (simp add: map_of_put_request)
  from Cons.IH [OF l d(2)] have
    ih: "set rb' = set ?rb1 \<union> {reboot_needed (activity r') | k r'.
            k \<in> fst ` set rr \<and> map_of (requests m') k = Some r' \<and> state r' = Success}"
    and g: "grows request_event w1 w'" by blast+
  have g': "grows request_event w w'"
    using grows_execute [OF e] g by (rule grows_trans)
  have split: "{reboot_needed (activity r') | k r'.
            k \<in> fst ` set (kr # rr) \<and> map_of (requests m') k = Some r' \<and> state r' = Success}
     = (if state req1 = Success then {reboot_needed (activity req1)} else {})
       \<union> {reboot_needed (activity r') | k r'.
            k \<in> fst ` set rr \<and> map_of (requests m') k = Some r' \<and> state r' = Success}"
    using here kr by auto
  show ?case
    unfolding split using ih g' by auto
qed


lemma quiet_set:
  assumes "list_all quiet es"
  shows "Exec c \<notin> set es" "Log ''leave-maintenance'' \<notin> set es"
proof -
  have "\<forall>e \<in> set es. quiet e" using assms by (simp add: list_all_iff)
  then show "Exec c \<notin> set es" "Log ''leave-maintenance'' \<notin> set es" by fastforce+
qed

lemma grows_run_commands:
  "run_commands E cs w = (res, w') \<Longrightarrow> grows quiet w w'"
proof (induction cs arbitrary: w)
  case Nil
  then show ?case by (simp add: grows_refl)
next
  case (Cons nc cs)
  obtain name command where nc: "nc = (name, command)" by (cases nc)
  show ?case
  proof (cases "blank command")
    case True
    with Cons nc show ?thesis by simp
  next
    case False
    obtain r1 w1 where e: "ext E (Shell command) CalledProcessError w = (r1, w1)"
      by (cases "ext E (Shell command) CalledProcessError w")
    have g: "grows quiet w w1" using grows_ext [where P = quiet, OF _ e] by simp
    show ?thesis
    proof (cases r1)
      case (Inl x)
      with Cons.prems nc False e have "w' = w1" by simp
      with g show ?thesis by simp
    next
      case (Inr u)
      with Cons.prems nc False e have "run_commands E cs w1 = (res, w')" by simp
      from Cons.IH [OF this] g show ?thesis by (blast intro: grows_trans)
    qed
  qed
qed

lemma grows_log: "key \<noteq> ''leave-maintenance'' \<Longrightarrow> grows quiet w (log key w)"
  by (simp add: grows_def log_def)

lemma grows_enter_maintenance:
  assumes "enter_maintenance E m w = (res, w')"
  shows "grows quiet w w'"
proof -
  let ?w0 = "log ''enter-maintenance'' w"
  have g0: "grows quiet w ?w0" by (rule grows_log) simp
  obtain r1 w1 where e: "ext E (MarkNodeServiceStatus (hostname E) False) DirectoryError ?w0 = (r1, w1)"
    by (cases "ext E (MarkNodeServiceStatus (hostname E) False) DirectoryError ?w0")
  have g1: "grows quiet ?w0 w1" using grows_ext [where P = quiet, OF _ e] by simp
  show ?thesis
  proof (cases r1)
    case (Inl x)
    with assms e have "w' = w1" by (simp add: enter_maintenance_def)
    with g0 g1 show ?thesis by (blast intro: grows_trans)
  next
    case (Inr u)
    show ?thesis
    proof (cases "map_of (config m) ''maintenance-enter''")
      case None
      with assms e Inr have "w' = w1" by (simp add: enter_maintenance_def)
      with g0 g1 show ?thesis by (blast intro: grows_trans)
    next
      case (Some commands)
      with assms e Inr have "run_commands E commands w1 = (res, w')"
        by (simp add: enter_maintenance_def)
      from grows_run_commands [OF this] g0 g1 show ?thesis by (blast intro: grows_trans)
    qed
  qed
qed

lemma leave_maintenance_trace:
  assumes "leave_maintenance E m w = (res, w')"
  shows "\<exists>es. trace w' = trace w @ Log ''leave-maintenance'' # es \<and> list_all quiet es"
proof -
  let ?w0 = "log ''leave-maintenance'' w"
  have t0: "trace ?w0 = trace w @ [Log ''leave-maintenance'']" by (simp add: log_def)
  have fin: "\<exists>es. trace w' = trace w @ Log ''leave-maintenance'' # es \<and> list_all quiet es"
    if "grows quiet ?w0 w'" for w'
    using that t0 by (auto simp: grows_def)
  show ?thesis
  proof (cases "map_of (config m) ''maintenance-leave''")
    case None
    with assms have "w' = ?w0" by (simp add: leave_maintenance_def)
    then show ?thesis using fin [OF grows_refl] by simp
  next
    case (Some commands)
    obtain r1 w1 where c: "run_commands E commands ?w0 = (r1, w1)"
      by (cases "run_commands E commands ?w0")
    have g1: "grows quiet ?w0 w1" using grows_run_commands [OF c] .
    show ?thesis
    proof (cases r1)
      case (Inl x)
      with assms Some c have "w' = w1" by (simp add: leave_maintenance_def)
      with g1 fin show ?thesis by simp
    next
      case (Inr u)
      with assms Some c have e: "ext E (MarkNodeServiceStatus (hostname E) True) DirectoryError w1 = (res, w')"
        by (simp add: leave_maintenance_def)
      have "grows quiet w1 w'" using grows_ext [where P = quiet, OF _ e] by simp
      with g1 have "grows quiet ?w0 w'" by (rule grows_trans)
      then show ?thesis by (rule fin)
    qed
  qed
qed


lemma reboot_trace:
  "\<exists>es. trace (snd (reboot E rb w)) = trace w @ es
     \<and> (Some COLD \<in> set rb \<longrightarrow> es = [Log ''maintenance-poweroff'', Exec ''poweroff'']
            \<and> fst (reboot E rb w) \<noteq> Inr False)
     \<and> (Some COLD \<notin> set rb \<and> Some WARM \<in> set rb \<longrightarrow> es = [Log ''maintenance-reboot'', Exec ''reboot'']
            \<and> fst (reboot E rb w) \<noteq> Inr False)
     \<and> (Some COLD \<notin> set rb \<and> Some WARM \<notin> set rb \<longrightarrow> es = [] \<and> reboot E rb w = (Inr False, w))"
  by (simp add: reboot_def ext_def log_def)

lemma mgr_execute_run_batch:
  assumes "directory m" "lockfile m"
  shows "mgr_execute E ev True m w = run_batch E ev (requests m) m w"
    and "runnable E m w = (Inr rr, m', w') \<Longrightarrow> mgr_execute E ev False m w = run_batch E ev rr m' w'"
  using assms by (simp_all add: mgr_execute_def require_directory_def require_lock_def)

text \<open>
  C6. \<open>run_batch\<close> is \<^verbatim>\<open>ReqManager.execute()\<close> from the point where the runnable
  requests are known. When the batch is not empty and \<^verbatim>\<open>enter_maintenance\<close> has
  succeeded, the set of requested reboots after the loop holds the
  \<^verbatim>\<open>reboot_needed\<close> of exactly the executed requests that are in state
  \<^verbatim>\<open>success\<close> after their execution. If it holds a cold reboot,
  \<^verbatim>\<open>poweroff\<close> is run and \<^verbatim>\<open>reboot\<close> is not; if it holds a warm reboot only,
  \<^verbatim>\<open>reboot\<close> is run. \<^verbatim>\<open>leave_maintenance\<close> is entered exactly when neither
  command was run; this also holds for the empty batch.
\<close>

theorem C6_execute_batch:
  assumes dk: "distinct (map fst rr)"
    and en: "rr \<noteq> [] \<longrightarrow> fst (enter_maintenance E m w) = Inr ()"
  shows "\<exists>reboots m2 w2 es.
     execute_loop E ev rr [] m (snd (enter_maintenance E m w)) = (reboots, m2, w2)
     \<and> set reboots = {reboot_needed (activity r') | k r'.
            k \<in> fst ` set rr \<and> map_of (requests m2) k = Some r' \<and> state r' = Success}
     \<and> trace (snd (snd (run_batch E ev rr m w))) = trace w @ es
     \<and> (Some COLD \<in> set reboots \<longrightarrow> Exec ''poweroff'' \<in> set es \<and> Exec ''reboot'' \<notin> set es)
     \<and> (Some COLD \<notin> set reboots \<and> Some WARM \<in> set reboots
           \<longrightarrow> Exec ''reboot'' \<in> set es \<and> Exec ''poweroff'' \<notin> set es)
     \<and> (Log ''leave-maintenance'' \<in> set es \<longleftrightarrow> (\<forall>c. Exec c \<notin> set es))"
proof -
  obtain r1 w1 where e: "enter_maintenance E m w = (r1, w1)" by (cases "enter_maintenance E m w")
  obtain rb m2 w2 where l: "execute_loop E ev rr [] m w1 = (rb, m2, w2)"
    by (cases "execute_loop E ev rr [] m w1")
  from execute_loop_result [OF l dk] have
    rbs: "set rb = {reboot_needed (activity r') | k r'.
            k \<in> fst ` set rr \<and> map_of (requests m2) k = Some r' \<and> state r' = Success}"
    and g2: "grows request_event w1 w2" by auto
  have l': "execute_loop E ev rr [] m (snd (enter_maintenance E m w)) = (rb, m2, w2)"
    using e l by simp
  show ?thesis
  proof (cases "rr = []")
    case True
    then have rb0: "set rb = {}" using l by simp
    obtain r3 w3 where lv: "leave_maintenance E m w = (r3, w3)"
      by (cases "leave_maintenance E m w")
    from leave_maintenance_trace [OF lv] obtain es where
      t: "trace w3 = trace w @ Log ''leave-maintenance'' # es" and q: "list_all quiet es" by blast
    have tr: "trace (snd (snd (run_batch E ev rr m w))) = trace w @ (Log ''leave-maintenance'' # es)"
      using True lv t by (simp add: run_batch_def)
    have iff: "Log ''leave-maintenance'' \<in> set (Log ''leave-maintenance'' # es)
        \<longleftrightarrow> (\<forall>c. Exec c \<notin> set (Log ''leave-maintenance'' # es))"
      using quiet_set(1) [OF q] by simp
    show ?thesis
      by (rule exI [of _ rb], rule exI [of _ m2], rule exI [of _ w2],
          rule exI [of _ "Log ''leave-maintenance'' # es"])
         (use l' rbs tr iff rb0 in simp)
  next
    case False
    with en e have r1: "r1 = Inr ()" by simp
    have g1: "grows quiet w w1" using grows_enter_maintenance [OF e] .
    have g2': "grows quiet w1 w2" using g2 by (rule grows_mono) (rule request_event_quiet)
    from g1 g2' have "grows quiet w w2" by (rule grows_trans)
    then obtain es0 where t0: "trace w2 = trace w @ es0" and q0: "list_all quiet es0"
      by (auto simp: grows_def)
    note n0 = quiet_set [OF q0]
    from reboot_trace [of E rb w2] obtain es3 where
      t3: "trace (snd (reboot E rb w2)) = trace w2 @ es3"
      and cold: "Some COLD \<in> set rb \<longrightarrow> es3 = [Log ''maintenance-poweroff'', Exec ''poweroff'']
            \<and> fst (reboot E rb w2) \<noteq> Inr False"
      and warm: "Some COLD \<notin> set rb \<and> Some WARM \<in> set rb \<longrightarrow> es3 = [Log ''maintenance-reboot'', Exec ''reboot'']
            \<and> fst (reboot E rb w2) \<noteq> Inr False"
      and none: "Some COLD \<notin> set rb \<and> Some WARM \<notin> set rb \<longrightarrow> es3 = [] \<and> reboot E rb w2 = (Inr False, w2)"
      by blast
    obtain r3 w3 where rbt: "reboot E rb w2 = (r3, w3)" by (cases "reboot E rb w2")
    have batch: "run_batch E ev rr m w =
        (case r3 of Inl x \<Rightarrow> (Inl x, m2, w3)
         | Inr rebooted \<Rightarrow>
             if \<not> rebooted
             then (case leave_maintenance E m2 (log ''no-reboot-requested'' w3) of (res, w4) \<Rightarrow> (res, m2, w4))
             else (Inr (), m2, w3))"
      using False e r1 l rbt by (simp add: run_batch_def)
    show ?thesis
    proof (cases "Some COLD \<in> set rb \<or> Some WARM \<in> set rb")
      case True
      then have ne: "r3 \<noteq> Inr False" using cold warm rbt by auto
      have w': "snd (snd (run_batch E ev rr m w)) = w3"
        using batch ne by (cases r3) auto
      have tr: "trace (snd (snd (run_batch E ev rr m w))) = trace w @ (es0 @ es3)"
        using w' t3 t0 rbt by simp
      have es3: "es3 = [Log ''maintenance-poweroff'', Exec ''poweroff''] \<and> Some COLD \<in> set rb
          \<or> es3 = [Log ''maintenance-reboot'', Exec ''reboot''] \<and> Some COLD \<notin> set rb \<and> Some WARM \<in> set rb"
        using True cold warm by blast
      have props: "(Some COLD \<in> set rb \<longrightarrow> Exec ''poweroff'' \<in> set (es0 @ es3) \<and> Exec ''reboot'' \<notin> set (es0 @ es3))
         \<and> (Some COLD \<notin> set rb \<and> Some WARM \<in> set rb
               \<longrightarrow> Exec ''reboot'' \<in> set (es0 @ es3) \<and> Exec ''poweroff'' \<notin> set (es0 @ es3))
         \<and> (Log ''leave-maintenance'' \<in> set (es0 @ es3) \<longleftrightarrow> (\<forall>c. Exec c \<notin> set (es0 @ es3)))"
        using es3 n0 by (elim disjE conjE) simp_all
      show ?thesis
        by (rule exI [of _ rb], rule exI [of _ m2], rule exI [of _ w2], rule exI [of _ "es0 @ es3"])
           (use l' rbs tr props in simp)
    next
      case nr: False
      with none rbt have r3: "r3 = Inr False" "w3 = w2" "es3 = []" by auto
      let ?w4 = "log ''no-reboot-requested'' w2"
      obtain r5 w5 where lv: "leave_maintenance E m2 ?w4 = (r5, w5)"
        by (cases "leave_maintenance E m2 ?w4")
      from leave_maintenance_trace [OF lv] obtain es5 where
        t5: "trace w5 = trace ?w4 @ Log ''leave-maintenance'' # es5" and q5: "list_all quiet es5"
        by blast
      let ?es = "es0 @ Log ''no-reboot-requested'' # Log ''leave-maintenance'' # es5"
      have tr: "trace (snd (snd (run_batch E ev rr m w))) = trace w @ ?es"
        using batch r3 lv t5 t0 by (simp add: log_def)
      have props: "Log ''leave-maintenance'' \<in> set ?es \<longleftrightarrow> (\<forall>c. Exec c \<notin> set ?es)"
        using n0(1) quiet_set(1) [OF q5] by simp
      show ?thesis
        by (rule exI [of _ rb], rule exI [of _ m2], rule exI [of _ w2], rule exI [of _ ?es])
           (use l' rbs tr props nr in simp)
    qed
  qed
qed

lemma execute_success:
  assumes "has_dir r"
  shows "state (fst (snd (execute env0 ev0 r w))) = Success
     \<and> activity (fst (snd (execute env0 ev0 r w))) = (activity r)\<lparr>act_returncode := Some 0\<rparr>"
proof -
  from assms obtain d where d: "dir r = Some d" "d \<noteq> []"
    by (auto simp: has_dir_def split: option.splits)
  have f: "\<And>t e. \<not> fails env0 t e" by (simp add: env0_def)
  have run: "\<And>t q. run_activity env0 t q = (activity q\<lparr>act_returncode := Some 0\<rparr>, None)"
    by (simp add: env0_def)
  show ?thesis
    using d
    by (simp add: execute_def execute_try_def Attempt_def utcnow_def save_def ext_def f with_cd_def
          dump_activity_def run_and_record_def run record_attempt_def total_seconds_def ev0_def
          Let_def)
qed


lemma enter_maintenance_eval: "fst (enter_maintenance env0 mgr_cw world0) = Inr ()"
  by (simp add: enter_maintenance_def ext_def env0_def mgr_cw_def mgr0_def blank_def is_space_def)

text \<open>
  The witness: both requests succeed, the cold reboot is the one issued and the node is
  not returned to service.
\<close>

theorem C6_execute_batch_witness:
  "distinct (map fst (requests mgr_cw))
   \<and> fst (enter_maintenance env0 mgr_cw world0) = Inr ()
   \<and> mgr_execute env0 ev0 True mgr_cw world0 = run_batch env0 ev0 (requests mgr_cw) mgr_cw world0
   \<and> Exec ''poweroff'' \<in> set (trace (snd (snd (run_batch env0 ev0 (requests mgr_cw) mgr_cw world0))))
   \<and> Exec ''reboot'' \<notin> set (trace (snd (snd (run_batch env0 ev0 (requests mgr_cw) mgr_cw world0))))
   \<and> Log ''leave-maintenance'' \<notin> set (trace (snd (snd (run_batch env0 ev0 (requests mgr_cw) mgr_cw world0))))"
proof -
  let ?rc = "req0\<lparr>reqid := ''c'', state := Due, dir := Some ''/spool/requests/c'',
                   activity := act0\<lparr>reboot_needed := Some COLD\<rparr>\<rparr>"
  let ?rw = "req0\<lparr>reqid := ''w'', state := Due, dir := Some ''/spool/requests/w'',
                   activity := act0\<lparr>reboot_needed := Some WARM\<rparr>\<rparr>"
  let ?w1 = "snd (enter_maintenance env0 mgr_cw world0)"
  have h1: "distinct (map fst (requests mgr_cw))" by (simp add: mgr_cw_def)
  have h2: "requests mgr_cw \<noteq> [] \<longrightarrow> fst (enter_maintenance env0 mgr_cw world0) = Inr ()"
    by (simp add: enter_maintenance_eval)
  from C6_execute_batch [OF h1 h2, of ev0] obtain reboots m2 w2 es where
    l: "execute_loop env0 ev0 (requests mgr_cw) [] mgr_cw ?w1 = (reboots, m2, w2)"
    and rbs: "set reboots = {reboot_needed (activity r') | k r'.
            k \<in> fst ` set (requests mgr_cw) \<and> map_of (requests m2) k = Some r' \<and> state r' = Success}"
    and tr: "trace (snd (snd (run_batch env0 ev0 (requests mgr_cw) mgr_cw world0))) = trace world0 @ es"
    and cold: "Some COLD \<in> set reboots \<longrightarrow> Exec ''poweroff'' \<in> set es \<and> Exec ''reboot'' \<notin> set es"
    and iff: "Log ''leave-maintenance'' \<in> set es \<longleftrightarrow> (\<forall>c. Exec c \<notin> set es)"
    by blast
  obtain resA req1 wA where eA: "execute env0 ev0 ?rc ?w1 = (resA, req1, wA)"
    by (cases "execute env0 ev0 ?rc ?w1")
  have rq: "requests mgr_cw = [(''c'', ?rc), (''w'', ?rw)]" by (simp add: mgr_cw_def)
  have lk: "map_of (requests mgr_cw) ''c'' = Some ?rc" by (simp add: rq)
  have hd: "has_dir ?rc" by (simp add: has_dir_def)
  from execute_success [OF hd, of ?w1] eA have s1: "state req1 = Success"
    and a1: "reboot_needed (activity req1) = Some COLD" by (simp_all add: act0_def)
  let ?rb1 = "if state req1 = Success then List.insert (reboot_needed (activity req1)) [] else []"
  have l2: "execute_loop env0 ev0 [(''w'', ?rw)] ?rb1 (put_request ''c'' req1 mgr_cw) wA = (reboots, m2, w2)"
    using l unfolding rq
    by (subst (asm) execute_loop.simps(2)) (simp add: lk eA Let_def del: execute_loop.simps)
  have "map_of (requests m2) ''c'' = map_of (requests (put_request ''c'' req1 mgr_cw)) ''c''"
    by (rule execute_loop_frame [OF l2]) simp
  then have m2c: "map_of (requests m2) ''c'' = Some req1" by (simp add: map_of_put_request)
  have "\<exists>k r'. Some COLD = reboot_needed (activity r') \<and> k \<in> fst ` set (requests mgr_cw)
           \<and> map_of (requests m2) k = Some r' \<and> state r' = Success"
    by (rule exI [of _ "''c''"], rule exI [of _ req1]) (simp add: a1 m2c s1 rq)
  then have c: "Some COLD \<in> set reboots" unfolding rbs by (rule CollectI)
  have tw: "trace world0 = []" by (simp add: world0_def)
  from cold c have p: "Exec ''poweroff'' \<in> set es" "Exec ''reboot'' \<notin> set es" by simp_all
  from iff p(1) have nl: "Log ''leave-maintenance'' \<notin> set es" by blast
  have me: "mgr_execute env0 ev0 True mgr_cw world0 = run_batch env0 ev0 (requests mgr_cw) mgr_cw world0"
    by (rule mgr_execute_run_batch(1)) (simp_all add: mgr_cw_def mgr0_def)
  show ?thesis
    using h1 enter_maintenance_eval p nl me by (simp add: tr tw)
qed

end
